theory Spec2Isabelle
  imports Main "HOL-Library.Word"
begin

section \<open>Memory model\<close>

text \<open>
  The container is built from heap cells linked by raw pointers.  A pointer is an
  address or null (\<open>None\<close>).  A cell is a \<open>treap_base_node\<close> (priority and three links);
  a \<open>treap_node\<close> adds the key, the head node of a treap has no key (\<open>key = None\<close>).

  A \<open>node<T, U>\<close> object is one allocation with two base sub-objects, the left view
  (\<open>treap_node<T, Left_Tag>\<close>) and the right view (\<open>treap_node<U, Right_Tag>\<close>).  The
  store keeps the two views of the allocation at address \<open>a\<close> as \<open>lnodes s a\<close> and
  \<open>rnodes s a\<close>; the \<open>static_cast\<close> between the views keeps the address.  The head
  node of a left treap is a cell of \<open>lnodes\<close>, that of a right treap a cell of
  \<open>rnodes\<close>.

  Everything the source leaves undefined is an error value: dereferencing null,
  touching a cell that is not allocated, reading the key of a head node.  Every loop
  and recursion carries a step budget; \<open>Diverged\<close> means the budget ran out.
\<close>

datatype error = NullDeref | UseAfterFree | NoKey | Diverged | BadAlloc | OutOfRange

type_synonym addr = nat

record 'k treap_node =
  random_key :: "32 word"
  left :: "addr option"
  right :: "addr option"
  parent :: "addr option"
  key :: "'k option"

type_synonym 'k heap = "addr \<Rightarrow> 'k treap_node option"

record ('l, 'r) store =
  lnodes :: "'l heap"
  rnodes :: "'r heap"

definition bind :: "error + 'a \<Rightarrow> ('a \<Rightarrow> error + 'b) \<Rightarrow> error + 'b" where
  "bind m f = (case m of Inl e \<Rightarrow> Inl e | Inr x \<Rightarrow> f x)"

definition load :: "'k heap \<Rightarrow> addr \<Rightarrow> error + 'k treap_node" where
  "load h a = (case h a of None \<Rightarrow> Inl UseAfterFree | Some n \<Rightarrow> Inr n)"

definition deref :: "'k heap \<Rightarrow> addr option \<Rightarrow> error + 'k treap_node" where
  "deref h p = (case p of None \<Rightarrow> Inl NullDeref | Some a \<Rightarrow> load h a)"

definition key_of :: "'k heap \<Rightarrow> addr option \<Rightarrow> error + 'k" where
  "key_of h p = bind (deref h p) (\<lambda>n. case key n of None \<Rightarrow> Inl NoKey | Some k \<Rightarrow> Inr k)"

definition modify :: "'k heap \<Rightarrow> addr \<Rightarrow> ('k treap_node \<Rightarrow> 'k treap_node) \<Rightarrow> error + 'k heap" where
  "modify h a f = (case h a of None \<Rightarrow> Inl UseAfterFree | Some n \<Rightarrow> Inr (h(a \<mapsto> f n)))"

definition set_left :: "'k heap \<Rightarrow> addr \<Rightarrow> addr option \<Rightarrow> error + 'k heap" where
  "set_left h a p = modify h a (\<lambda>n. n\<lparr>left := p\<rparr>)"

definition set_right :: "'k heap \<Rightarrow> addr \<Rightarrow> addr option \<Rightarrow> error + 'k heap" where
  "set_right h a p = modify h a (\<lambda>n. n\<lparr>right := p\<rparr>)"

definition set_parent :: "'k heap \<Rightarrow> addr \<Rightarrow> addr option \<Rightarrow> error + 'k heap" where
  "set_parent h a p = modify h a (\<lambda>n. n\<lparr>parent := p\<rparr>)"

text \<open>\<open>if (c) c->parent = p;\<close>\<close>

definition set_parent_if :: "'k heap \<Rightarrow> addr option \<Rightarrow> addr option \<Rightarrow> error + 'k heap" where
  "set_parent_if h c p = (case c of None \<Rightarrow> Inr h | Some a \<Rightarrow> set_parent h a p)"

section \<open>The treap engine\<close>

text \<open>
  A treap object is its head node (a cell of the heap, at address \<open>head_node\<close>) and its
  comparator.  \<open>head_node.left\<close> is the root.
\<close>

record 'k treap =
  head_node :: addr
  comparator :: "'k \<Rightarrow> 'k \<Rightarrow> bool"

type_synonym iterator = "addr option"

definition get_root :: "'k heap \<Rightarrow> 'k treap \<Rightarrow> error + addr option" where
  "get_root h t = bind (load h (head_node t)) (\<lambda>hn. Inr (left hn))"

text \<open>\<open>head_node.left = m; if (head_node.left) head_node.left->parent = &head_node;\<close>\<close>

definition set_root :: "'k heap \<Rightarrow> 'k treap \<Rightarrow> addr option \<Rightarrow> error + 'k heap" where
  "set_root h t m =
     bind (set_left h (head_node t) m) (\<lambda>h1. set_parent_if h1 m (Some (head_node t)))"

fun treap_split ::
  "nat \<Rightarrow> ('k \<Rightarrow> 'k \<Rightarrow> bool) \<Rightarrow> 'k heap \<Rightarrow> addr option \<Rightarrow> 'k
     \<Rightarrow> error + ('k heap \<times> addr option \<times> addr option)" where
  "treap_split 0 cmp h root k = Inl Diverged"
| "treap_split (Suc n) cmp h None k = Inr (h, None, None)"
| "treap_split (Suc n) cmp h (Some a) k =
     bind (key_of h (Some a)) (\<lambda>rk.
       if cmp rk k then
         bind (load h a) (\<lambda>rn.
         bind (treap_split n cmp h (right rn) k) (\<lambda>(h1, l, r).
         bind (set_right h1 a l) (\<lambda>h2.
         bind (set_parent_if h2 l (Some a)) (\<lambda>h3.
         bind (set_parent_if h3 r None) (\<lambda>h4.
         Inr (h4, Some a, r))))))
       else
         bind (load h a) (\<lambda>rn.
         bind (treap_split n cmp h (left rn) k) (\<lambda>(h1, l, r).
         bind (set_left h1 a r) (\<lambda>h2.
         bind (set_parent_if h2 r (Some a)) (\<lambda>h3.
         bind (set_parent_if h3 l None) (\<lambda>h4.
         Inr (h4, l, Some a)))))))"

fun treap_merge ::
  "nat \<Rightarrow> 'k heap \<Rightarrow> addr option \<Rightarrow> addr option \<Rightarrow> error + ('k heap \<times> addr option)" where
  "treap_merge 0 h t1 t2 = Inl Diverged"
| "treap_merge (Suc n) h None t2 =
     bind (set_parent_if h t2 None) (\<lambda>h1. Inr (h1, t2))"
| "treap_merge (Suc n) h (Some a) None =
     bind (set_parent_if h (Some a) None) (\<lambda>h1. Inr (h1, Some a))"
| "treap_merge (Suc n) h (Some a) (Some b) =
     bind (load h a) (\<lambda>n1.
     bind (load h b) (\<lambda>n2.
       if random_key n2 < random_key n1 then
         bind (treap_merge n h (right n1) (Some b)) (\<lambda>(h1, m).
         bind (set_right h1 a m) (\<lambda>h2.
         bind (set_parent_if h2 m (Some a)) (\<lambda>h3.
         Inr (h3, Some a))))
       else
         bind (treap_merge n h (Some a) (left n2)) (\<lambda>(h1, m).
         bind (set_left h1 b m) (\<lambda>h2.
         bind (set_parent_if h2 m (Some b)) (\<lambda>h3.
         Inr (h3, Some b))))))"

text \<open>\<open>while (p->left) p = p->left;\<close> from a pointer that is dereferenced at once.\<close>

fun leftmost :: "nat \<Rightarrow> 'k heap \<Rightarrow> addr option \<Rightarrow> error + addr" where
  "leftmost 0 h p = Inl Diverged"
| "leftmost (Suc n) h p =
     (case p of None \<Rightarrow> Inl NullDeref
      | Some a \<Rightarrow> bind (load h a) (\<lambda>nd.
          case left nd of None \<Rightarrow> Inr a | Some l \<Rightarrow> leftmost n h (Some l)))"

definition treap_end :: "'k treap \<Rightarrow> iterator" where
  "treap_end t = Some (head_node t)"

definition treap_begin :: "nat \<Rightarrow> 'k heap \<Rightarrow> 'k treap \<Rightarrow> error + iterator" where
  "treap_begin n h t =
     bind (get_root h t) (\<lambda>root.
       if root = None then Inr (treap_end t)
       else bind (leftmost n h root) (\<lambda>m. Inr (Some m)))"

definition treap_insert ::
  "nat \<Rightarrow> 'k heap \<Rightarrow> 'k treap \<Rightarrow> addr \<Rightarrow> error + ('k heap \<times> iterator)" where
  "treap_insert n h t node =
     bind (get_root h t) (\<lambda>root.
     bind (key_of h (Some node)) (\<lambda>k.
     bind (treap_split n (comparator t) h root k) (\<lambda>(h1, l, r).
     bind (treap_merge n h1 l (Some node)) (\<lambda>(h2, new_left).
     bind (treap_merge n h2 new_left r) (\<lambda>(h3, m).
     bind (set_left h3 (head_node t) m) (\<lambda>h4.
     bind (case m of None \<Rightarrow> Inl NullDeref
                   | Some ra \<Rightarrow> set_parent h4 ra (Some (head_node t))) (\<lambda>h5.
     Inr (h5, Some node))))))))"

text \<open>
  The splice of \<open>treap::remove\<close>, after the candidate has been compared with the key:
  \<^verbatim>\<open>
  if (removed_node == t2) { t2 = removed_node->right; next = t2; }
  else { removed_node->parent->left = removed_node->right;
         next = removed_node->parent; }
  if (removed_node->right) { removed_node->right->parent = removed_node->parent;
                             next = removed_node->right; }
  \<close>
  It returns the heap, the new \<open>t2\<close> and \<open>next\<close>.
\<close>

definition splice_out ::
  "'k heap \<Rightarrow> addr \<Rightarrow> addr option \<Rightarrow> error + ('k heap \<times> addr option \<times> addr option)" where
  "splice_out h removed_node t2 =
     bind (load h removed_node) (\<lambda>rn.
     bind (if Some removed_node = t2 then Inr (h, right rn, right rn)
           else case parent rn of None \<Rightarrow> Inl NullDeref
                | Some p \<Rightarrow> bind (set_left h p (right rn)) (\<lambda>h1.
                    Inr (h1, t2, Some p))) (\<lambda>(h1, t2', next1).
     bind (load h1 removed_node) (\<lambda>rn'.
       if right rn' \<noteq> None then
         bind (set_parent_if h1 (right rn') (parent rn')) (\<lambda>h2.
         Inr (h2, t2', right rn'))
       else Inr (h1, t2', next1))))"

definition treap_remove ::
  "nat \<Rightarrow> 'k heap \<Rightarrow> 'k treap \<Rightarrow> 'k \<Rightarrow> error + ('k heap \<times> iterator)" where
  "treap_remove n h t k =
     bind (get_root h t) (\<lambda>root.
     bind (treap_split n (comparator t) h root k) (\<lambda>(h1, t1, t2).
     bind (leftmost n h1 t2) (\<lambda>removed_node.
     bind (key_of h1 (Some removed_node)) (\<lambda>rk.
       if comparator t rk k \<or> comparator t k rk then Inr (h1, treap_end t)
       else
         bind (splice_out h1 removed_node t2) (\<lambda>(h2, t2', next1).
         bind (treap_merge n h2 t1 t2') (\<lambda>(h3, m).
         bind (set_root h3 t m) (\<lambda>h4.
           if next1 = None then Inr (h4, treap_end t) else Inr (h4, next1))))))))"

fun exist_loop ::
  "nat \<Rightarrow> 'k heap \<Rightarrow> 'k treap \<Rightarrow> addr option \<Rightarrow> 'k \<Rightarrow> error + iterator" where
  "exist_loop 0 h t buffer k = Inl Diverged"
| "exist_loop (Suc n) h t None k = Inr (treap_end t)"
| "exist_loop (Suc n) h t (Some a) k =
     bind (key_of h (Some a)) (\<lambda>bk.
       if comparator t bk k then
         bind (load h a) (\<lambda>nd. exist_loop n h t (right nd) k)
       else if comparator t k bk then
         bind (load h a) (\<lambda>nd. exist_loop n h t (left nd) k)
       else Inr (Some a))"

definition treap_exist :: "nat \<Rightarrow> 'k heap \<Rightarrow> 'k treap \<Rightarrow> 'k \<Rightarrow> error + iterator" where
  "treap_exist n h t k = bind (get_root h t) (\<lambda>root. exist_loop n h t root k)"

text \<open>\<open>while (p && p->left) p = p->left;\<close>\<close>

definition leftmost_opt :: "nat \<Rightarrow> 'k heap \<Rightarrow> addr option \<Rightarrow> error + addr option" where
  "leftmost_opt n h p =
     (if p = None then Inr None else bind (leftmost n h p) (\<lambda>m. Inr (Some m)))"

definition treap_lower_bound ::
  "nat \<Rightarrow> 'k heap \<Rightarrow> 'k treap \<Rightarrow> 'k \<Rightarrow> error + ('k heap \<times> iterator)" where
  "treap_lower_bound n h t k =
     bind (get_root h t) (\<lambda>root.
     bind (treap_split n (comparator t) h root k) (\<lambda>(h1, t1, t2).
     bind (leftmost_opt n h1 t2) (\<lambda>lower_b.
     bind (treap_merge n h1 t1 t2) (\<lambda>(h2, m).
     bind (set_root h2 t m) (\<lambda>h3.
       if lower_b = None then Inr (h3, treap_end t) else Inr (h3, lower_b))))))"

definition treap_upper_bound ::
  "nat \<Rightarrow> 'k heap \<Rightarrow> 'k treap \<Rightarrow> 'k \<Rightarrow> error + ('k heap \<times> iterator)" where
  "treap_upper_bound n h t k =
     bind (get_root h t) (\<lambda>root.
     bind (treap_split n (comparator t) h root k) (\<lambda>(h1, t1, t2).
       if t2 = None then
         bind (treap_merge n h1 t1 t2) (\<lambda>(h2, m).
         bind (set_root h2 t m) (\<lambda>h3. Inr (h3, treap_end t)))
       else
         bind (leftmost_opt n h1 t2) (\<lambda>upper_b.
         bind (key_of h1 upper_b) (\<lambda>uk.
         bind (if \<not> comparator t uk k \<and> \<not> comparator t k uk then
                 bind (deref h1 upper_b) (\<lambda>un.
                   if parent un \<noteq> None then Inr (parent un)
                   else if right un \<noteq> None then Inr (right un)
                   else Inr upper_b)
               else Inr upper_b) (\<lambda>upper_b'.
         bind (treap_merge n h1 t1 t2) (\<lambda>(h2, m).
         bind (set_root h2 t m) (\<lambda>h3.
           if upper_b' = None then Inr (h3, treap_end t) else Inr (h3, upper_b'))))))))"

text \<open>
  \<open>iterator::operator++\<close>.  The climbing loop
  \<open>while (temp && m_ptr == temp->right) { m_ptr = temp; temp = temp->parent; }\<close>
  returns the final \<open>(m_ptr, temp)\<close>.
\<close>

fun climb :: "nat \<Rightarrow> 'k heap \<Rightarrow> addr option \<Rightarrow> addr option
    \<Rightarrow> error + (addr option \<times> addr option)" where
  "climb 0 h m_ptr temp = Inl Diverged"
| "climb (Suc n) h m_ptr temp =
     (case temp of None \<Rightarrow> Inr (m_ptr, temp)
      | Some ta \<Rightarrow> bind (load h ta) (\<lambda>tn.
          if m_ptr = right tn then climb n h temp (parent tn)
          else Inr (m_ptr, temp)))"

definition increment :: "nat \<Rightarrow> 'k heap \<Rightarrow> iterator \<Rightarrow> error + iterator" where
  "increment n h m_ptr =
     bind (deref h m_ptr) (\<lambda>nd.
       if parent nd = None then Inr m_ptr
       else if right nd \<noteq> None then
         bind (leftmost n h (right nd)) (\<lambda>m. Inr (Some m))
       else
         bind (climb n h m_ptr (parent nd)) (\<lambda>(m, temp).
         bind (deref h m) (\<lambda>mn.
           if right mn \<noteq> temp then Inr temp else Inr m)))"

text \<open>Construction, move and swap of a treap object.\<close>

definition treap_ctor ::
  "'k heap \<Rightarrow> addr \<Rightarrow> 32 word \<Rightarrow> ('k \<Rightarrow> 'k \<Rightarrow> bool) \<Rightarrow> 'k heap \<times> 'k treap" where
  "treap_ctor h ha rk cmp =
     (h(ha \<mapsto> \<lparr>random_key = rk, left = None, right = None, parent = None, key = None\<rparr>),
      \<lparr>head_node = ha, comparator = cmp\<rparr>)"

definition treap_move_ctor ::
  "'k heap \<Rightarrow> addr \<Rightarrow> 'k treap \<Rightarrow> error + ('k heap \<times> 'k treap)" where
  "treap_move_ctor h ha other =
     bind (load h (head_node other)) (\<lambda>ohd.
     bind (set_left (h(ha \<mapsto> ohd)) (head_node other) None) (\<lambda>h1.
     Inr (h1, \<lparr>head_node = ha, comparator = comparator other\<rparr>)))"

definition treap_copy_assign :: "'k treap \<Rightarrow> 'k treap \<Rightarrow> 'k treap" where
  "treap_copy_assign t other = t\<lparr>comparator := comparator other\<rparr>"

definition treap_move_assign ::
  "'k heap \<Rightarrow> 'k treap \<Rightarrow> 'k treap \<Rightarrow> error + ('k heap \<times> 'k treap)" where
  "treap_move_assign h t other =
     bind (get_root h other) (\<lambda>oroot.
     bind (set_left h (head_node t) oroot) (\<lambda>h1.
     bind (set_left h1 (head_node other) None) (\<lambda>h2.
     Inr (h2, t\<lparr>comparator := comparator other\<rparr>))))"

definition treap_swap ::
  "'k heap \<Rightarrow> 'k treap \<Rightarrow> 'k treap \<Rightarrow> error + ('k heap \<times> 'k treap \<times> 'k treap)" where
  "treap_swap h t other =
     bind (get_root h t) (\<lambda>root.
     bind (get_root h other) (\<lambda>oroot.
     bind (set_root h t oroot) (\<lambda>h1.
     bind (set_root h1 other root) (\<lambda>h2.
     Inr (h2, t\<lparr>comparator := comparator other\<rparr>,
              other\<lparr>comparator := comparator t\<rparr>)))))"

section \<open>The bimap facade\<close>

record ('l, 'r) bimap =
  size_field :: "64 word"
  left_treap :: "'l treap"
  right_treap :: "'r treap"

datatype left_iterator = LeftIt (l_it: iterator)
datatype right_iterator = RightIt (r_it: iterator)

text \<open>\<open>flip\<close> casts the node pointer to the other base of the same allocation.\<close>

definition flip_left :: "left_iterator \<Rightarrow> right_iterator" where
  "flip_left i = RightIt (l_it i)"

definition flip_right :: "right_iterator \<Rightarrow> left_iterator" where
  "flip_right i = LeftIt (r_it i)"

definition deref_left :: "('l, 'r) store \<Rightarrow> left_iterator \<Rightarrow> error + 'l" where
  "deref_left s i = key_of (lnodes s) (l_it i)"

definition deref_right :: "('l, 'r) store \<Rightarrow> right_iterator \<Rightarrow> error + 'r" where
  "deref_right s i = key_of (rnodes s) (r_it i)"

definition bimap_size :: "('l, 'r) bimap \<Rightarrow> 64 word" where
  "bimap_size b = size_field b"

definition bimap_empty :: "('l, 'r) bimap \<Rightarrow> bool" where
  "bimap_empty b = (bimap_size b = 0)"

definition end_left :: "('l, 'r) bimap \<Rightarrow> left_iterator" where
  "end_left b = LeftIt (treap_end (left_treap b))"

definition end_right :: "('l, 'r) bimap \<Rightarrow> right_iterator" where
  "end_right b = RightIt (treap_end (right_treap b))"

definition begin_left :: "nat \<Rightarrow> ('l, 'r) store \<Rightarrow> ('l, 'r) bimap \<Rightarrow> error + left_iterator" where
  "begin_left n s b = bind (treap_begin n (lnodes s) (left_treap b)) (\<lambda>i. Inr (LeftIt i))"

definition begin_right :: "nat \<Rightarrow> ('l, 'r) store \<Rightarrow> ('l, 'r) bimap \<Rightarrow> error + right_iterator" where
  "begin_right n s b = bind (treap_begin n (rnodes s) (right_treap b)) (\<lambda>i. Inr (RightIt i))"

definition incr_left :: "nat \<Rightarrow> ('l, 'r) store \<Rightarrow> left_iterator \<Rightarrow> error + left_iterator" where
  "incr_left n s i = bind (increment n (lnodes s) (l_it i)) (\<lambda>j. Inr (LeftIt j))"

definition incr_right :: "nat \<Rightarrow> ('l, 'r) store \<Rightarrow> right_iterator \<Rightarrow> error + right_iterator" where
  "incr_right n s i = bind (increment n (rnodes s) (r_it i)) (\<lambda>j. Inr (RightIt j))"

definition find_left ::
  "nat \<Rightarrow> ('l, 'r) store \<Rightarrow> ('l, 'r) bimap \<Rightarrow> 'l \<Rightarrow> error + left_iterator" where
  "find_left n s b l = bind (treap_exist n (lnodes s) (left_treap b) l) (\<lambda>i. Inr (LeftIt i))"

definition find_right ::
  "nat \<Rightarrow> ('l, 'r) store \<Rightarrow> ('l, 'r) bimap \<Rightarrow> 'r \<Rightarrow> error + right_iterator" where
  "find_right n s b r = bind (treap_exist n (rnodes s) (right_treap b) r) (\<lambda>i. Inr (RightIt i))"

text \<open>
  \<open>new node_t(left, right)\<close>: the allocator returns the address, the two calls of
  \<open>rand()\<close> the priorities of the two views.
\<close>

definition new_node ::
  "('l, 'r) store \<Rightarrow> addr \<Rightarrow> 32 word \<Rightarrow> 32 word \<Rightarrow> 'l \<Rightarrow> 'r \<Rightarrow> ('l, 'r) store" where
  "new_node s a pl pr l r =
     s\<lparr>lnodes := (lnodes s)(a \<mapsto>
          \<lparr>random_key = pl, left = None, right = None, parent = None, key = Some l\<rparr>),
       rnodes := (rnodes s)(a \<mapsto>
          \<lparr>random_key = pr, left = None, right = None, parent = None, key = Some r\<rparr>)\<rparr>"

text \<open>\<open>delete static_cast<node_t*>(p)\<close>; deleting null does nothing.\<close>

definition delete_node :: "('l, 'r) store \<Rightarrow> addr option \<Rightarrow> error + ('l, 'r) store" where
  "delete_node s p =
     (case p of None \<Rightarrow> Inr s
      | Some a \<Rightarrow>
          if lnodes s a = None \<or> rnodes s a = None then Inl UseAfterFree
          else Inr (s\<lparr>lnodes := (lnodes s)(a := None), rnodes := (rnodes s)(a := None)\<rparr>))"

text \<open>
  The guard of \<open>insert\<close>, with the short-circuit evaluation of the source:
  \<open>!empty() && (find_left(l) != end_left() || find_right(r) != end_right())\<close>.
\<close>

definition insert_rejected ::
  "nat \<Rightarrow> ('l, 'r) store \<Rightarrow> ('l, 'r) bimap \<Rightarrow> 'l \<Rightarrow> 'r \<Rightarrow> error + bool" where
  "insert_rejected n s b l r =
     (if bimap_empty b then Inr False
      else bind (find_left n s b l) (\<lambda>il.
             if il \<noteq> end_left b then Inr True
             else bind (find_right n s b r) (\<lambda>ir. Inr (ir \<noteq> end_right b))))"

definition bimap_insert ::
  "nat \<Rightarrow> (addr \<times> 32 word \<times> 32 word) option \<Rightarrow> ('l, 'r) store \<Rightarrow> ('l, 'r) bimap \<Rightarrow> 'l \<Rightarrow> 'r
     \<Rightarrow> error + (('l, 'r) store \<times> ('l, 'r) bimap \<times> left_iterator)" where
  "bimap_insert n alloc s b l r =
     bind (insert_rejected n s b l r) (\<lambda>rejected.
       if rejected then Inr (s, b, end_left b)
       else case alloc of None \<Rightarrow> Inl BadAlloc
            | Some (a, pl, pr) \<Rightarrow>
                bind (treap_insert n (lnodes (new_node s a pl pr l r)) (left_treap b) a)
                  (\<lambda>(hl, li).
                bind (treap_insert n (rnodes (new_node s a pl pr l r)) (right_treap b) a)
                  (\<lambda>(hr, ri).
                Inr (\<lparr>lnodes = hl, rnodes = hr\<rparr>,
                     b\<lparr>size_field := size_field b + 1\<rparr>, LeftIt li))))"

definition erase_left_it ::
  "nat \<Rightarrow> ('l, 'r) store \<Rightarrow> ('l, 'r) bimap \<Rightarrow> left_iterator
     \<Rightarrow> error + (('l, 'r) store \<times> ('l, 'r) bimap \<times> left_iterator)" where
  "erase_left_it n s b i =
     bind (incr_left n s i) (\<lambda>nxt.
     bind (deref_left s i) (\<lambda>lk.
     bind (treap_remove n (lnodes s) (left_treap b) lk) (\<lambda>(hl, _).
     bind (deref_right (s\<lparr>lnodes := hl\<rparr>) (flip_left i)) (\<lambda>rk.
     bind (treap_remove n (rnodes s) (right_treap b) rk) (\<lambda>(hr, _).
     bind (delete_node \<lparr>lnodes = hl, rnodes = hr\<rparr> (l_it i)) (\<lambda>s'.
     Inr (s', b\<lparr>size_field := size_field b - 1\<rparr>, nxt)))))))"

definition erase_left ::
  "nat \<Rightarrow> ('l, 'r) store \<Rightarrow> ('l, 'r) bimap \<Rightarrow> 'l
     \<Rightarrow> error + (('l, 'r) store \<times> ('l, 'r) bimap \<times> bool)" where
  "erase_left n s b l =
     bind (find_left n s b l) (\<lambda>i.
       if i = end_left b then Inr (s, b, False)
       else bind (erase_left_it n s b i) (\<lambda>(s', b', _). Inr (s', b', True)))"

definition erase_right_it ::
  "nat \<Rightarrow> ('l, 'r) store \<Rightarrow> ('l, 'r) bimap \<Rightarrow> right_iterator
     \<Rightarrow> error + (('l, 'r) store \<times> ('l, 'r) bimap \<times> right_iterator)" where
  "erase_right_it n s b i =
     bind (incr_right n s i) (\<lambda>nxt.
     bind (deref_right s i) (\<lambda>rk.
     bind (treap_remove n (rnodes s) (right_treap b) rk) (\<lambda>(hr, _).
     bind (deref_left (s\<lparr>rnodes := hr\<rparr>) (flip_right i)) (\<lambda>lk.
     bind (treap_remove n (lnodes s) (left_treap b) lk) (\<lambda>(hl, _).
     bind (delete_node \<lparr>lnodes = hl, rnodes = hr\<rparr> (r_it i)) (\<lambda>s'.
     Inr (s', b\<lparr>size_field := size_field b - 1\<rparr>, nxt)))))))"

definition erase_right ::
  "nat \<Rightarrow> ('l, 'r) store \<Rightarrow> ('l, 'r) bimap \<Rightarrow> 'r
     \<Rightarrow> error + (('l, 'r) store \<times> ('l, 'r) bimap \<times> bool)" where
  "erase_right n s b r =
     bind (find_right n s b r) (\<lambda>i.
       if i = end_right b then Inr (s, b, False)
       else bind (erase_right_it n s b i) (\<lambda>(s', b', _). Inr (s', b', True)))"

text \<open>\<open>while (first != last) first = erase_left(first); return last;\<close>\<close>

fun erase_left_range ::
  "nat \<Rightarrow> nat \<Rightarrow> ('l, 'r) store \<Rightarrow> ('l, 'r) bimap \<Rightarrow> left_iterator \<Rightarrow> left_iterator
     \<Rightarrow> error + (('l, 'r) store \<times> ('l, 'r) bimap \<times> left_iterator)" where
  "erase_left_range 0 n s b first lst = Inl Diverged"
| "erase_left_range (Suc c) n s b first lst =
     (if first \<noteq> lst then
        bind (erase_left_it n s b first) (\<lambda>(s', b', first').
          erase_left_range c n s' b' first' lst)
      else Inr (s, b, lst))"

definition clear ::
  "nat \<Rightarrow> ('l, 'r) store \<Rightarrow> ('l, 'r) bimap \<Rightarrow> error + (('l, 'r) store \<times> ('l, 'r) bimap)" where
  "clear n s b =
     bind (begin_left n s b) (\<lambda>first.
     bind (erase_left_range n n s b first (end_left b)) (\<lambda>(s', b', _). Inr (s', b')))"

definition at_left :: "nat \<Rightarrow> ('l, 'r) store \<Rightarrow> ('l, 'r) bimap \<Rightarrow> 'l \<Rightarrow> error + 'r" where
  "at_left n s b k =
     bind (find_left n s b k) (\<lambda>i.
       if i = end_left b then Inl OutOfRange else deref_right s (flip_left i))"

definition at_right :: "nat \<Rightarrow> ('l, 'r) store \<Rightarrow> ('l, 'r) bimap \<Rightarrow> 'r \<Rightarrow> error + 'l" where
  "at_right n s b k =
     bind (find_right n s b k) (\<lambda>i.
       if i = end_right b then Inl OutOfRange else deref_left s (flip_right i))"

text \<open>
  \<open>at_left_or_default\<close>; \<open>dflt\<close> is the value-initialised \<open>right_t{}\<close>.  The source
  returns a reference into the node, the model the value read through it.
\<close>

definition at_left_or_default ::
  "nat \<Rightarrow> (addr \<times> 32 word \<times> 32 word) option \<Rightarrow> 'r \<Rightarrow> ('l, 'r) store \<Rightarrow> ('l, 'r) bimap \<Rightarrow> 'l
     \<Rightarrow> error + (('l, 'r) store \<times> ('l, 'r) bimap \<times> 'r)" where
  "at_left_or_default n alloc dflt s b k =
     bind (find_left n s b k) (\<lambda>i.
       if i \<noteq> end_left b then
         bind (deref_right s (flip_left i)) (\<lambda>v. Inr (s, b, v))
       else
         bind (find_right n s b dflt) (\<lambda>j.
         bind (if j \<noteq> end_right b then
                 bind (erase_right_it n s b j) (\<lambda>(s1, b1, _). Inr (s1, b1))
               else Inr (s, b)) (\<lambda>(s1, b1).
         bind (bimap_insert n alloc s1 b1 k dflt) (\<lambda>(s2, b2, li).
         bind (deref_right s2 (flip_left li)) (\<lambda>v. Inr (s2, b2, v))))))"

definition at_right_or_default ::
  "nat \<Rightarrow> (addr \<times> 32 word \<times> 32 word) option \<Rightarrow> 'l \<Rightarrow> ('l, 'r) store \<Rightarrow> ('l, 'r) bimap \<Rightarrow> 'r
     \<Rightarrow> error + (('l, 'r) store \<times> ('l, 'r) bimap \<times> 'l)" where
  "at_right_or_default n alloc dflt s b k =
     bind (find_right n s b k) (\<lambda>i.
       if i \<noteq> end_right b then
         bind (deref_left s (flip_right i)) (\<lambda>v. Inr (s, b, v))
       else
         bind (find_left n s b dflt) (\<lambda>j.
         bind (if j \<noteq> end_left b then
                 bind (erase_left_it n s b j) (\<lambda>(s1, b1, _). Inr (s1, b1))
               else Inr (s, b)) (\<lambda>(s1, b1).
         bind (bimap_insert n alloc s1 b1 dflt k) (\<lambda>(s2, b2, li).
         bind (deref_left s2 li) (\<lambda>v. Inr (s2, b2, v))))))"

definition lower_bound_left ::
  "nat \<Rightarrow> ('l, 'r) store \<Rightarrow> ('l, 'r) bimap \<Rightarrow> 'l \<Rightarrow> error + (('l, 'r) store \<times> left_iterator)" where
  "lower_bound_left n s b l =
     bind (treap_lower_bound n (lnodes s) (left_treap b) l) (\<lambda>(hl, i).
       Inr (s\<lparr>lnodes := hl\<rparr>, LeftIt i))"

definition upper_bound_left ::
  "nat \<Rightarrow> ('l, 'r) store \<Rightarrow> ('l, 'r) bimap \<Rightarrow> 'l \<Rightarrow> error + (('l, 'r) store \<times> left_iterator)" where
  "upper_bound_left n s b l =
     bind (treap_upper_bound n (lnodes s) (left_treap b) l) (\<lambda>(hl, i).
       Inr (s\<lparr>lnodes := hl\<rparr>, LeftIt i))"

definition lower_bound_right ::
  "nat \<Rightarrow> ('l, 'r) store \<Rightarrow> ('l, 'r) bimap \<Rightarrow> 'r \<Rightarrow> error + (('l, 'r) store \<times> right_iterator)" where
  "lower_bound_right n s b r =
     bind (treap_lower_bound n (rnodes s) (right_treap b) r) (\<lambda>(hr, i).
       Inr (s\<lparr>rnodes := hr\<rparr>, RightIt i))"

definition upper_bound_right ::
  "nat \<Rightarrow> ('l, 'r) store \<Rightarrow> ('l, 'r) bimap \<Rightarrow> 'r \<Rightarrow> error + (('l, 'r) store \<times> right_iterator)" where
  "upper_bound_right n s b r =
     bind (treap_upper_bound n (rnodes s) (right_treap b) r) (\<lambda>(hr, i).
       Inr (s\<lparr>rnodes := hr\<rparr>, RightIt i))"

text \<open>
  Construction.  The addresses of the two head nodes are where the new object lives;
  the priorities of the head nodes are \<open>rand()\<close> draws as for every base node.
\<close>

definition bimap_ctor ::
  "('l, 'r) store \<Rightarrow> addr \<Rightarrow> 32 word \<Rightarrow> addr \<Rightarrow> 32 word
     \<Rightarrow> ('l \<Rightarrow> 'l \<Rightarrow> bool) \<Rightarrow> ('r \<Rightarrow> 'r \<Rightarrow> bool) \<Rightarrow> ('l, 'r) store \<times> ('l, 'r) bimap" where
  "bimap_ctor s hl pl hr pr compare_left compare_right =
     (\<lparr>lnodes = fst (treap_ctor (lnodes s) hl pl compare_left),
       rnodes = fst (treap_ctor (rnodes s) hr pr compare_right)\<rparr>,
      \<lparr>size_field = 0,
       left_treap = snd (treap_ctor (lnodes s) hl pl compare_left),
       right_treap = snd (treap_ctor (rnodes s) hr pr compare_right)\<rparr>)"

definition bimap_move_ctor ::
  "('l, 'r) store \<Rightarrow> addr \<Rightarrow> addr \<Rightarrow> ('l, 'r) bimap
     \<Rightarrow> error + (('l, 'r) store \<times> ('l, 'r) bimap)" where
  "bimap_move_ctor s hl hr other =
     bind (treap_move_ctor (lnodes s) hl (left_treap other)) (\<lambda>(h1, tl).
     bind (treap_move_ctor (rnodes s) hr (right_treap other)) (\<lambda>(h2, tr).
     Inr (\<lparr>lnodes = h1, rnodes = h2\<rparr>,
          \<lparr>size_field = bimap_size other, left_treap = tl, right_treap = tr\<rparr>)))"

text \<open>
  The copying loop of the copy constructor and of copy assignment:
  \<^verbatim>\<open>
  for (auto it = other.begin_left(); it != other.end_left(); ++it) {
    try { insert(*it, *it.flip()); } catch (...) { clear(); break; }
  }
  \<close>
  \<open>allocs\<close> lists what the successive allocations return; \<open>None\<close> (or the end of the
  list) is an allocation that throws.
\<close>

fun copy_loop ::
  "nat \<Rightarrow> nat \<Rightarrow> (addr \<times> 32 word \<times> 32 word) option list \<Rightarrow> ('l, 'r) store
     \<Rightarrow> ('l, 'r) bimap \<Rightarrow> ('l, 'r) bimap \<Rightarrow> left_iterator
     \<Rightarrow> error + (('l, 'r) store \<times> ('l, 'r) bimap)" where
  "copy_loop 0 n allocs s b other i = Inl Diverged"
| "copy_loop (Suc c) n allocs s b other i =
     (if i \<noteq> end_left other then
        bind (deref_left s i) (\<lambda>l.
        bind (deref_right s (flip_left i)) (\<lambda>r.
          case bimap_insert n (case allocs of [] \<Rightarrow> None | x # _ \<Rightarrow> x) s b l r of
            Inl e \<Rightarrow> if e = BadAlloc then clear n s b else Inl e
          | Inr (s', b', _) \<Rightarrow>
              bind (incr_left n s' i) (\<lambda>i'. copy_loop c n (tl allocs) s' b' other i')))
      else Inr (s, b))"

definition bimap_copy_ctor ::
  "nat \<Rightarrow> (addr \<times> 32 word \<times> 32 word) option list \<Rightarrow> ('l, 'r) store
     \<Rightarrow> addr \<Rightarrow> 32 word \<Rightarrow> addr \<Rightarrow> 32 word \<Rightarrow> ('l, 'r) bimap
     \<Rightarrow> error + (('l, 'r) store \<times> ('l, 'r) bimap)" where
  "bimap_copy_ctor n allocs s hl pl hr pr other =
     bind (begin_left n
             (fst (bimap_ctor s hl pl hr pr (comparator (left_treap other))
                (comparator (right_treap other)))) other) (\<lambda>i.
     copy_loop n n allocs
       (fst (bimap_ctor s hl pl hr pr (comparator (left_treap other))
                (comparator (right_treap other))))
       (snd (bimap_ctor s hl pl hr pr (comparator (left_treap other))
                (comparator (right_treap other)))) other i)"

text \<open>\<open>this == &other\<close>: an object is where its head nodes are.\<close>

definition same_object :: "('l, 'r) bimap \<Rightarrow> ('l, 'r) bimap \<Rightarrow> bool" where
  "same_object b other =
     (head_node (left_treap b) = head_node (left_treap other) \<and>
      head_node (right_treap b) = head_node (right_treap other))"

definition copy_assign ::
  "nat \<Rightarrow> (addr \<times> 32 word \<times> 32 word) option list \<Rightarrow> ('l, 'r) store
     \<Rightarrow> ('l, 'r) bimap \<Rightarrow> ('l, 'r) bimap \<Rightarrow> error + (('l, 'r) store \<times> ('l, 'r) bimap)" where
  "copy_assign n allocs s b other =
     (if same_object b other \<or> bimap_empty other then Inr (s, b)
      else
        bind (clear n s b) (\<lambda>(s1, b1).
        bind (begin_left n s1 other) (\<lambda>i.
        copy_loop n n allocs s1
          (b1\<lparr>left_treap := treap_copy_assign (left_treap b1) (left_treap other),
              right_treap := treap_copy_assign (right_treap b1) (right_treap other)\<rparr>)
          other i)))"

text \<open>Move assignment returns the store, the assigned object and the source object.\<close>

definition move_assign ::
  "nat \<Rightarrow> ('l, 'r) store \<Rightarrow> ('l, 'r) bimap \<Rightarrow> ('l, 'r) bimap
     \<Rightarrow> error + (('l, 'r) store \<times> ('l, 'r) bimap \<times> ('l, 'r) bimap)" where
  "move_assign n s b other =
     (if same_object b other \<or> bimap_empty other then Inr (s, b, other)
      else
        bind (clear n s b) (\<lambda>(s1, b1).
        bind (treap_move_assign (lnodes s1) (left_treap b1) (left_treap other)) (\<lambda>(hl, tl).
        bind (treap_move_assign (rnodes s1) (right_treap b1) (right_treap other)) (\<lambda>(hr, tr).
        Inr (\<lparr>lnodes = hl, rnodes = hr\<rparr>,
             \<lparr>size_field = bimap_size other, left_treap = tl, right_treap = tr\<rparr>,
             other)))))"

definition bimap_swap ::
  "('l, 'r) store \<Rightarrow> ('l, 'r) bimap \<Rightarrow> ('l, 'r) bimap
     \<Rightarrow> error + (('l, 'r) store \<times> ('l, 'r) bimap \<times> ('l, 'r) bimap)" where
  "bimap_swap s b other =
     bind (treap_swap (lnodes s) (left_treap b) (left_treap other)) (\<lambda>(hl, tl, otl).
     bind (treap_swap (rnodes s) (right_treap b) (right_treap other)) (\<lambda>(hr, tr, otr).
     Inr (\<lparr>lnodes = hl, rnodes = hr\<rparr>,
          b\<lparr>left_treap := tl, right_treap := tr\<rparr>,
          other\<lparr>left_treap := otl, right_treap := otr\<rparr>)))"

text \<open>
  \<open>operator==\<close>.  The keys are compared with the \<open>==\<close> of their types, not with the
  comparators.
\<close>

fun equal_loop ::
  "nat \<Rightarrow> nat \<Rightarrow> ('l, 'r) store \<Rightarrow> ('l, 'r) bimap \<Rightarrow> ('l, 'r) bimap
     \<Rightarrow> left_iterator \<Rightarrow> left_iterator \<Rightarrow> error + bool" where
  "equal_loop 0 n s lhs rhs bl br = Inl Diverged"
| "equal_loop (Suc c) n s lhs rhs bl br =
     (if bl \<noteq> end_left lhs \<and> br \<noteq> end_left rhs then
        bind (deref_left s bl) (\<lambda>x.
        bind (deref_left s br) (\<lambda>y.
          if x = y then
            bind (deref_right s (flip_left bl)) (\<lambda>u.
            bind (deref_right s (flip_left br)) (\<lambda>v.
              if u = v then
                bind (incr_left n s bl) (\<lambda>bl'.
                bind (incr_left n s br) (\<lambda>br'.
                equal_loop c n s lhs rhs bl' br'))
              else Inr False))
          else Inr False))
      else Inr True)"

definition bimap_equal ::
  "nat \<Rightarrow> ('l, 'r) store \<Rightarrow> ('l, 'r) bimap \<Rightarrow> ('l, 'r) bimap \<Rightarrow> error + bool" where
  "bimap_equal n s lhs rhs =
     (if bimap_size lhs \<noteq> bimap_size rhs then Inr False
      else bind (begin_left n s lhs) (\<lambda>bl.
           bind (begin_left n s rhs) (\<lambda>br.
           equal_loop n n s lhs rhs bl br)))"

text \<open>
  A client's traversal, \<open>for (it = begin_left(); it != end_left(); ++it)\<close>, collecting
  \<open>*it\<close>; likewise on the right side.
\<close>

fun walk_left ::
  "nat \<Rightarrow> nat \<Rightarrow> ('l, 'r) store \<Rightarrow> ('l, 'r) bimap \<Rightarrow> left_iterator \<Rightarrow> error + 'l list" where
  "walk_left 0 n s b i = Inl Diverged"
| "walk_left (Suc c) n s b i =
     (if i \<noteq> end_left b then
        bind (deref_left s i) (\<lambda>k.
        bind (incr_left n s i) (\<lambda>i'.
        bind (walk_left c n s b i') (\<lambda>ks. Inr (k # ks))))
      else Inr [])"

definition traverse_left ::
  "nat \<Rightarrow> ('l, 'r) store \<Rightarrow> ('l, 'r) bimap \<Rightarrow> error + 'l list" where
  "traverse_left n s b = bind (begin_left n s b) (\<lambda>i. walk_left n n s b i)"

fun walk_right ::
  "nat \<Rightarrow> nat \<Rightarrow> ('l, 'r) store \<Rightarrow> ('l, 'r) bimap \<Rightarrow> right_iterator \<Rightarrow> error + 'r list" where
  "walk_right 0 n s b i = Inl Diverged"
| "walk_right (Suc c) n s b i =
     (if i \<noteq> end_right b then
        bind (deref_right s i) (\<lambda>k.
        bind (incr_right n s i) (\<lambda>i'.
        bind (walk_right c n s b i') (\<lambda>ks. Inr (k # ks))))
      else Inr [])"

definition traverse_right ::
  "nat \<Rightarrow> ('l, 'r) store \<Rightarrow> ('l, 'r) bimap \<Rightarrow> error + 'r list" where
  "traverse_right n s b = bind (begin_right n s b) (\<lambda>i. walk_right n n s b i)"

section \<open>Example states\<close>

text \<open>
  The pair stored by the allocation at an address: the keys of its two views.
\<close>

definition pair_at :: "('l, 'r) store \<Rightarrow> addr \<Rightarrow> ('l \<times> 'r) option" where
  "pair_at s a =
     (case (lnodes s a, rnodes s a) of
        (Some nl, Some nr) \<Rightarrow>
          (case (key nl, key nr) of (Some l, Some r) \<Rightarrow> Some (l, r) | _ \<Rightarrow> None)
      | _ \<Rightarrow> None)"

definition empty_store :: "(nat, nat) store" where
  "empty_store = \<lparr>lnodes = (\<lambda>a. None), rnodes = (\<lambda>a. None)\<rparr>"

text \<open>
  A \<open>bimap<nat, nat>\<close> with \<open>std::less\<close> on both sides, its head nodes at the
  addresses 100 and 101, and the same after \<open>insert(2, 20)\<close> and \<open>insert(5, 50)\<close>,
  the nodes allocated at the addresses 1 and 2.
\<close>

definition fresh_bimap :: "(nat, nat) store \<times> (nat, nat) bimap" where
  "fresh_bimap = bimap_ctor empty_store 100 0 101 0 (<) (<)"

definition one_pair :: "error + ((nat, nat) store \<times> (nat, nat) bimap)" where
  "one_pair =
     bind (bimap_insert 3 (Some (1, 9, 4)) (fst fresh_bimap) (snd fresh_bimap) 2 20)
       (\<lambda>(s, b, i). Inr (s, b))"

definition two_pairs :: "error + ((nat, nat) store \<times> (nat, nat) bimap)" where
  "two_pairs =
     bind one_pair (\<lambda>(s, b).
     bind (bimap_insert 3 (Some (2, 5, 7)) s b 5 50) (\<lambda>(s', b', i). Inr (s', b')))"

text \<open>
  Two containers after \<open>a.insert(2, 20)\<close>, \<open>a.swap(c)\<close> and \<open>c.insert(2, 21)\<close>; the
  second container \<open>c\<close> has its head nodes at the addresses 200 and 201.
\<close>

definition after_swap ::
  "error + ((nat, nat) store \<times> (nat, nat) bimap \<times> (nat, nat) bimap)" where
  "after_swap =
     bind one_pair (\<lambda>(s, a).
     bind (bimap_swap (fst (bimap_ctor s 200 0 201 0 (<) (<))) a
             (snd (bimap_ctor s 200 0 201 0 (<) (<)))) (\<lambda>(s', a', c').
     bind (bimap_insert 3 (Some (2, 5, 7)) s' c' 2 21) (\<lambda>(s'', c'', i).
     Inr (s'', a', c''))))"

text \<open>
  The two containers right after \<open>a.insert(2, 20)\<close> and \<open>a.swap(c)\<close>, and right after
  \<open>a.insert(7, 0)\<close> and \<open>a.swap(c)\<close>; \<open>c\<close> has its head nodes at 200 and 201.  The
  third state is the first one with a further empty container \<open>e\<close>, its head nodes at
  300 and 301; it returns the store, \<open>c\<close> and \<open>e\<close>.
\<close>

definition swapped ::
  "error + ((nat, nat) store \<times> (nat, nat) bimap \<times> (nat, nat) bimap)" where
  "swapped =
     bind one_pair (\<lambda>(s, a).
     bimap_swap (fst (bimap_ctor s 200 0 201 0 (<) (<))) a
       (snd (bimap_ctor s 200 0 201 0 (<) (<))))"

definition swapped_default ::
  "error + ((nat, nat) store \<times> (nat, nat) bimap \<times> (nat, nat) bimap)" where
  "swapped_default =
     bind (bimap_insert 3 (Some (1, 9, 4)) (fst fresh_bimap) (snd fresh_bimap) 7 0)
       (\<lambda>(s, a, i).
     bimap_swap (fst (bimap_ctor s 200 0 201 0 (<) (<))) a
       (snd (bimap_ctor s 200 0 201 0 (<) (<))))"

definition swapped_and_fresh ::
  "error + ((nat, nat) store \<times> (nat, nat) bimap \<times> (nat, nat) bimap)" where
  "swapped_and_fresh =
     bind swapped (\<lambda>(s, a, c).
     Inr (fst (bimap_ctor s 300 0 301 0 (<) (<)), c, snd (bimap_ctor s 300 0 301 0 (<) (<))))"

section \<open>Client code: walking a container and filling it\<close>

text \<open>
  The loop \<open>for (it = b.begin_left(); it != b.end_left(); ++it)\<close> collecting the pairs
  \<open>(*it, *it.flip())\<close>: the pairs of the container in the order of the left keys.  The
  first argument bounds the number of iterations, the second is the budget of each
  \<open>operator++\<close>.
\<close>

fun walk_pairs ::
  "nat \<Rightarrow> nat \<Rightarrow> ('l, 'r) store \<Rightarrow> ('l, 'r) bimap \<Rightarrow> left_iterator
     \<Rightarrow> error + ('l \<times> 'r) list" where
  "walk_pairs 0 n s b i = Inl Diverged"
| "walk_pairs (Suc c) n s b i =
     (if i \<noteq> end_left b then
        bind (deref_left s i) (\<lambda>l.
        bind (deref_right s (flip_left i)) (\<lambda>r.
        bind (incr_left n s i) (\<lambda>i'.
        bind (walk_pairs c n s b i') (\<lambda>ps. Inr ((l, r) # ps)))))
      else Inr [])"

definition traverse_pairs ::
  "nat \<Rightarrow> ('l, 'r) store \<Rightarrow> ('l, 'r) bimap \<Rightarrow> error + ('l \<times> 'r) list" where
  "traverse_pairs n s b = bind (begin_left n s b) (\<lambda>i. walk_pairs n n s b i)"

text \<open>
  A sequence of calls \<open>b.insert(l, r)\<close>, each with the address and the two priorities
  that its allocation and the random generators yield.
\<close>

fun insert_all ::
  "nat \<Rightarrow> ('l, 'r) store \<Rightarrow> ('l, 'r) bimap \<Rightarrow> ((addr \<times> 32 word \<times> 32 word) \<times> 'l \<times> 'r) list
     \<Rightarrow> error + (('l, 'r) store \<times> ('l, 'r) bimap)" where
  "insert_all n s b [] = Inr (s, b)"
| "insert_all n s b (op # ops) =
     bind (bimap_insert n (Some (fst op)) s b (fst (snd op)) (snd (snd op)))
       (\<lambda>(s', b', i). insert_all n s' b' ops)"

section \<open>Abstraction: the binary tree a heap holds\<close>

text \<open>
  The shape of a tree of nodes, with the address of each node: \<open>nodes\<close> is its set of
  addresses, \<open>inorder\<close> the addresses from left to right, \<open>count\<close> their number and
  \<open>root_of\<close> the pointer to the root (\<open>nullptr\<close> for the empty tree).
\<close>

datatype shape = Tip | Fork shape addr shape

fun nodes :: "shape \<Rightarrow> addr set" where
  "nodes Tip = {}"
| "nodes (Fork l a r) = insert a (nodes l \<union> nodes r)"

fun inorder :: "shape \<Rightarrow> addr list" where
  "inorder Tip = []"
| "inorder (Fork l a r) = inorder l @ a # inorder r"

fun count :: "shape \<Rightarrow> nat" where
  "count Tip = 0"
| "count (Fork l a r) = Suc (count l + count r)"

fun root_of :: "shape \<Rightarrow> addr option" where
  "root_of Tip = None"
| "root_of (Fork l a r) = Some a"

text \<open>
  \<open>parent_is h c p\<close>: the child pointer \<open>c\<close> is null, or the cell it points to has the
  parent pointer \<open>p\<close>.  \<open>wf_tree h T\<close>: the heap \<open>h\<close> holds the tree \<open>T\<close>: every node of
  \<open>T\<close> is an allocated cell with a key, its \<open>left\<close> and \<open>right\<close> point to the roots of its
  subtrees, whose \<open>parent\<close> points back, and no address occurs twice.
\<close>

definition parent_is :: "'k heap \<Rightarrow> addr option \<Rightarrow> addr option \<Rightarrow> bool" where
  "parent_is h c p = (case c of None \<Rightarrow> True
     | Some x \<Rightarrow> (case h x of None \<Rightarrow> False | Some n \<Rightarrow> parent n = p))"

fun wf_tree :: "'k heap \<Rightarrow> shape \<Rightarrow> bool" where
  "wf_tree h Tip = True"
| "wf_tree h (Fork l a r) =
     ((case h a of None \<Rightarrow> False
       | Some n \<Rightarrow> key n \<noteq> None \<and> left n = root_of l \<and> right n = root_of r)
      \<and> parent_is h (root_of l) (Some a) \<and> parent_is h (root_of r) (Some a)
      \<and> wf_tree h l \<and> wf_tree h r
      \<and> a \<notin> nodes l \<and> a \<notin> nodes r \<and> nodes l \<inter> nodes r = {})"

text \<open>
  Two heaps with the same allocated cells, keys and priorities; only links may differ.
  \<open>the_key\<close> and \<open>prio\<close> read the key and the priority of an allocated node.
\<close>

definition same_payload :: "'k heap \<Rightarrow> 'k heap \<Rightarrow> bool" where
  "same_payload h h' =
     (\<forall>x. (case h x of None \<Rightarrow> h' x = None
           | Some n \<Rightarrow> (case h' x of None \<Rightarrow> False
               | Some n' \<Rightarrow> key n' = key n \<and> random_key n' = random_key n)))"

definition the_key :: "'k heap \<Rightarrow> addr \<Rightarrow> 'k" where
  "the_key h a = the (key (the (h a)))"

definition prio :: "'k heap \<Rightarrow> addr \<Rightarrow> 32 word" where
  "prio h a = random_key (the (h a))"

text \<open>
  What \<open>split\<close> and \<open>merge\<close> compute, on shapes: \<open>split_shape lt T\<close> cuts \<open>T\<close> into the
  nodes on which \<open>lt\<close> holds and the others, following the recursion of \<open>treap::split\<close>;
  \<open>merge_shape P t1 t2\<close> follows \<open>treap::merge\<close> with the priorities \<open>P\<close>.
\<close>

fun split_shape :: "(addr \<Rightarrow> bool) \<Rightarrow> shape \<Rightarrow> shape \<times> shape" where
  "split_shape lt Tip = (Tip, Tip)"
| "split_shape lt (Fork l a r) =
     (if lt a then (Fork l a (fst (split_shape lt r)), snd (split_shape lt r))
      else (fst (split_shape lt l), Fork (snd (split_shape lt l)) a r))"

fun merge_shape :: "(addr \<Rightarrow> 32 word) \<Rightarrow> shape \<Rightarrow> shape \<Rightarrow> shape" where
  "merge_shape P Tip t2 = t2"
| "merge_shape P (Fork l a r) Tip = Fork l a r"
| "merge_shape P (Fork l1 a r1) (Fork l2 b r2) =
     (if P b < P a then Fork l1 a (merge_shape P r1 (Fork l2 b r2))
      else Fork (merge_shape P (Fork l1 a r1) l2) b r2)"

text \<open>
  \<open>put_parent h c q\<close> is the heap after \<open>if (c) c->parent = q\<close>; \<open>allocated h c\<close> says that
  the pointer \<open>c\<close> is null or points to a live cell.  \<open>lt_key cmp h k a\<close> is the test
  \<open>cmp(a->key, k)\<close> of \<open>split\<close>.
\<close>

definition put_parent :: "'k heap \<Rightarrow> addr option \<Rightarrow> addr option \<Rightarrow> 'k heap" where
  "put_parent h c q = (case c of None \<Rightarrow> h
     | Some x \<Rightarrow> (case h x of None \<Rightarrow> h | Some n \<Rightarrow> h(x \<mapsto> n\<lparr>parent := q\<rparr>)))"

definition allocated :: "'k heap \<Rightarrow> addr option \<Rightarrow> bool" where
  "allocated h c = (case c of None \<Rightarrow> True | Some x \<Rightarrow> h x \<noteq> None)"

definition lt_key :: "('k \<Rightarrow> 'k \<Rightarrow> bool) \<Rightarrow> 'k heap \<Rightarrow> 'k \<Rightarrow> addr \<Rightarrow> bool" where
  "lt_key cmp h k a = cmp (the_key h a) k"

text \<open>
  Two keys are equivalent when neither is smaller than the other; a comparator is a
  strict weak order when it is irreflexive and transitive and equivalence is transitive.
\<close>

definition equiv_keys :: "('k \<Rightarrow> 'k \<Rightarrow> bool) \<Rightarrow> 'k \<Rightarrow> 'k \<Rightarrow> bool" where
  "equiv_keys cmp x y = (\<not> cmp x y \<and> \<not> cmp y x)"

definition strict_weak_order :: "('k \<Rightarrow> 'k \<Rightarrow> bool) \<Rightarrow> bool" where
  "strict_weak_order cmp =
     ((\<forall>x. \<not> cmp x x)
      \<and> (\<forall>x y z. cmp x y \<longrightarrow> cmp y z \<longrightarrow> cmp x z)
      \<and> (\<forall>x y z. equiv_keys cmp x y \<longrightarrow> equiv_keys cmp y z \<longrightarrow> equiv_keys cmp x z))"

text \<open>
  The invariant of a \<open>treap\<close>: its head node is a live cell without key, parent and
  right child, whose left child is the root of \<open>T\<close>; the heap holds \<open>T\<close>; the keys are
  strictly increasing from left to right.  The invariant of a \<open>bimap\<close>: both treaps
  satisfy theirs, they have the same nodes, and \<open>_size\<close> is the number of nodes.
\<close>

definition treap_inv :: "'k heap \<Rightarrow> 'k treap \<Rightarrow> shape \<Rightarrow> bool" where
  "treap_inv h t T =
     ((case h (head_node t) of None \<Rightarrow> False
       | Some hn \<Rightarrow> key hn = None \<and> parent hn = None \<and> right hn = None
                    \<and> left hn = root_of T)
      \<and> parent_is h (root_of T) (Some (head_node t))
      \<and> head_node t \<notin> nodes T
      \<and> wf_tree h T
      \<and> strict_weak_order (comparator t)
      \<and> sorted_wrt (comparator t) (map (the_key h) (inorder T)))"

definition bimap_inv :: "('l, 'r) store \<Rightarrow> ('l, 'r) bimap \<Rightarrow> shape \<Rightarrow> shape \<Rightarrow> bool" where
  "bimap_inv s b TL TR =
     (treap_inv (lnodes s) (left_treap b) TL
      \<and> treap_inv (rnodes s) (right_treap b) TR
      \<and> nodes TL = nodes TR
      \<and> unat (size_field b) = count TL)"

text \<open>
  The container after \<open>insert(2, 20)\<close> (the value of \<open>one_pair\<close>), written out.
\<close>

definition one_pair_store :: "(nat, nat) store" where
  "one_pair_store =
     \<lparr>lnodes = (\<lambda>a. None)
        (100 \<mapsto> \<lparr>random_key = 0, left = Some 1, right = None, parent = None, key = None\<rparr>,
         1 \<mapsto> \<lparr>random_key = 9, left = None, right = None, parent = Some 100, key = Some 2\<rparr>),
      rnodes = (\<lambda>a. None)
        (101 \<mapsto> \<lparr>random_key = 0, left = Some 1, right = None, parent = None, key = None\<rparr>,
         1 \<mapsto> \<lparr>random_key = 4, left = None, right = None, parent = Some 101, key = Some 20\<rparr>)\<rparr>"

definition one_pair_bimap :: "(nat, nat) bimap" where
  "one_pair_bimap =
     \<lparr>size_field = 1,
      left_treap = \<lparr>head_node = 100, comparator = (<)\<rparr>,
      right_treap = \<lparr>head_node = 101, comparator = (<)\<rparr>\<rparr>"

text \<open>
  On shapes: the leftmost node of a tree (\<open>d\<close> if it is empty), the in-order successor
  of a node (\<open>d\<close> after the last one), the tree without its leftmost node, and the heap
  after \<open>remove\<close> has unlinked the leftmost node \<open>x\<close> of a subtree from its parent.
\<close>

fun first_of :: "shape \<Rightarrow> addr \<Rightarrow> addr" where
  "first_of Tip d = d"
| "first_of (Fork l a r) d = first_of l a"

fun next_of :: "shape \<Rightarrow> addr \<Rightarrow> addr \<Rightarrow> addr" where
  "next_of Tip x d = d"
| "next_of (Fork l a r) x d =
     (if x \<in> nodes l then next_of l x a
      else if x = a then first_of r d
      else next_of r x d)"

fun del_min :: "shape \<Rightarrow> shape" where
  "del_min Tip = Tip"
| "del_min (Fork l a r) = (if l = Tip then r else Fork (del_min l) a r)"

definition splice_heap :: "'k heap \<Rightarrow> addr \<Rightarrow> 'k heap" where
  "splice_heap h x =
     (case h x of None \<Rightarrow> h
      | Some nx \<Rightarrow> (case parent nx of None \<Rightarrow> h
          | Some p \<Rightarrow> (case h p of None \<Rightarrow> h
              | Some np \<Rightarrow> put_parent (h(p \<mapsto> np\<lparr>left := right nx\<rparr>)) (right nx) (Some p))))"

text \<open>
  The container after \<open>insert(0, 5)\<close> and \<open>insert(7, 0)\<close> (nodes at the addresses 1 and
  2), as the operations build it and written out.
\<close>

definition default_pairs :: "error + ((nat, nat) store \<times> (nat, nat) bimap)" where
  "default_pairs =
     bind (bimap_insert 3 (Some (1, 9, 8)) (fst fresh_bimap) (snd fresh_bimap) 0 5)
       (\<lambda>(s, b, i).
     bind (bimap_insert 3 (Some (2, 5, 3)) s b 7 0) (\<lambda>(s', b', i'). Inr (s', b')))"

definition default_pairs_store :: "(nat, nat) store" where
  "default_pairs_store =
     \<lparr>lnodes = (\<lambda>a. None)
        (100 \<mapsto> \<lparr>random_key = 0, left = Some 1, right = None, parent = None, key = None\<rparr>,
         1 \<mapsto> \<lparr>random_key = 9, left = None, right = Some 2, parent = Some 100, key = Some 0\<rparr>,
         2 \<mapsto> \<lparr>random_key = 5, left = None, right = None, parent = Some 1, key = Some 7\<rparr>),
      rnodes = (\<lambda>a. None)
        (101 \<mapsto> \<lparr>random_key = 0, left = Some 1, right = None, parent = None, key = None\<rparr>,
         1 \<mapsto> \<lparr>random_key = 8, left = Some 2, right = None, parent = Some 101, key = Some 5\<rparr>,
         2 \<mapsto> \<lparr>random_key = 3, left = None, right = None, parent = Some 1, key = Some 0\<rparr>)\<rparr>"

definition default_pairs_bimap :: "(nat, nat) bimap" where
  "default_pairs_bimap =
     \<lparr>size_field = 2,
      left_treap = \<lparr>head_node = 100, comparator = (<)\<rparr>,
      right_treap = \<lparr>head_node = 101, comparator = (<)\<rparr>\<rparr>"


text \<open>
  \<open>it_at xs d\<close> is the left iterator at the first address of \<open>xs\<close>, or at \<open>d\<close> when \<open>xs\<close>
  is empty; \<open>pair_of s a\<close> is the pair that the dual node \<open>a\<close> stores.
\<close>

definition it_at :: "addr list \<Rightarrow> addr \<Rightarrow> left_iterator" where
  "it_at xs d = LeftIt (Some (case xs of [] \<Rightarrow> d | x # _ \<Rightarrow> x))"

definition pair_of :: "('l, 'r) store \<Rightarrow> addr \<Rightarrow> 'l \<times> 'r" where
  "pair_of s a = (the_key (lnodes s) a, the_key (rnodes s) a)"

text \<open>
  The address an insertion of \<open>insert_all\<close> allocates, and two pairs that differ, up to
  the comparators, in their left keys and in their right keys.
\<close>

definition addr_of :: "(addr \<times> 32 word \<times> 32 word) \<times> 'l \<times> 'r \<Rightarrow> addr" where
  "addr_of op = fst (fst op)"

definition keys_apart ::
  "('l \<Rightarrow> 'l \<Rightarrow> bool) \<Rightarrow> ('r \<Rightarrow> 'r \<Rightarrow> bool) \<Rightarrow> 'l \<times> 'r \<Rightarrow> 'l \<times> 'r \<Rightarrow> bool" where
  "keys_apart cl cr p q =
     (\<not> equiv_keys cl (fst p) (fst q) \<and> \<not> equiv_keys cr (snd p) (snd q))"

text \<open>
  A second empty container, with its head nodes at the addresses 200 and 201, beside
  the empty container \<open>fresh_bimap\<close>, and beside the container holding \<open>(2, 20)\<close>.
\<close>

definition second_fresh :: "(nat, nat) store \<times> (nat, nat) bimap" where
  "second_fresh = bimap_ctor (fst fresh_bimap) 200 0 201 0 (<) (<)"

definition one_and_empty :: "(nat, nat) store \<times> (nat, nat) bimap" where
  "one_and_empty = bimap_ctor one_pair_store 200 0 201 0 (<) (<)"

lemma bind_Inr [simp]: "bind (Inr x) f = f x" by (simp add: bind_def)

lemma bind_Inl [simp]: "bind (Inl e) f = Inl e" by (simp add: bind_def)

lemma root_of_in_nodes: "root_of T = Some a \<Longrightarrow> a \<in> nodes T"
  by (cases T) auto

lemma root_of_None [simp]: "(root_of T = None) = (T = Tip)"
  by (cases T) auto

lemma set_inorder [simp]: "set (inorder T) = nodes T"
  by (induction T) auto

lemma length_inorder [simp]: "length (inorder T) = count T"
  by (induction T) auto

lemma parent_is_cong: "(\<forall>x. c = Some x \<longrightarrow> h' x = h x) \<Longrightarrow> parent_is h' c p = parent_is h c p"
  by (auto simp: parent_is_def split: option.splits)

lemma wf_tree_frame: "(\<forall>x\<in>nodes T. h' x = h x) \<Longrightarrow> wf_tree h' T = wf_tree h T"
proof (induction T)
  case Tip
  then show ?case by simp
next
  case (Fork l a r)
  have l: "wf_tree h' l = wf_tree h l" and r: "wf_tree h' r = wf_tree h r"
    using Fork by auto
  have pl: "parent_is h' (root_of l) (Some a) = parent_is h (root_of l) (Some a)"
    using Fork.prems by (intro parent_is_cong) (auto dest: root_of_in_nodes)
  have pr: "parent_is h' (root_of r) (Some a) = parent_is h (root_of r) (Some a)"
    using Fork.prems by (intro parent_is_cong) (auto dest: root_of_in_nodes)
  have a: "h' a = h a" using Fork.prems by simp
  show ?case by (simp add: l r pl pr a)
qed

lemma wf_tree_alloc: "wf_tree h T \<Longrightarrow> x \<in> nodes T \<Longrightarrow> \<exists>n. h x = Some n \<and> key n \<noteq> None"
  by (induction T) (auto split: option.splits)

lemma wf_tree_distinct: "wf_tree h T \<Longrightarrow> distinct (inorder T)"
  by (induction T) auto

lemma wf_tree_parent_upd:
  assumes "wf_tree h T" "h x = Some n" "x \<notin> nodes T \<or> root_of T = Some x"
  shows "wf_tree (h(x \<mapsto> n\<lparr>parent := q\<rparr>)) T"
proof (cases T)
  case Tip
  then show ?thesis by simp
next
  case (Fork l a r)
  have xl: "x \<notin> nodes l" and xr: "x \<notin> nodes r"
    using assms Fork by auto
  have l: "wf_tree (h(x \<mapsto> n\<lparr>parent := q\<rparr>)) l = wf_tree h l"
    by (rule wf_tree_frame) (use xl in auto)
  have r: "wf_tree (h(x \<mapsto> n\<lparr>parent := q\<rparr>)) r = wf_tree h r"
    by (rule wf_tree_frame) (use xr in auto)
  have pl: "parent_is (h(x \<mapsto> n\<lparr>parent := q\<rparr>)) (root_of l) (Some a) = parent_is h (root_of l) (Some a)"
    by (rule parent_is_cong) (use xl in \<open>auto dest: root_of_in_nodes\<close>)
  have pr: "parent_is (h(x \<mapsto> n\<lparr>parent := q\<rparr>)) (root_of r) (Some a) = parent_is h (root_of r) (Some a)"
    by (rule parent_is_cong) (use xr in \<open>auto dest: root_of_in_nodes\<close>)
  show ?thesis using assms(1,2) unfolding Fork
    by (auto simp: l r pl pr)
qed

lemma load_Some: "h a = Some n \<Longrightarrow> load h a = Inr n"
  by (simp add: load_def)

lemma key_of_Some: "h a = Some n \<Longrightarrow> key n = Some k \<Longrightarrow> key_of h (Some a) = Inr k"
  by (simp add: key_of_def deref_def load_def)

lemma set_left_Some: "h a = Some n \<Longrightarrow> set_left h a p = Inr (h(a \<mapsto> n\<lparr>left := p\<rparr>))"
  by (simp add: set_left_def modify_def)

lemma set_right_Some: "h a = Some n \<Longrightarrow> set_right h a p = Inr (h(a \<mapsto> n\<lparr>right := p\<rparr>))"
  by (simp add: set_right_def modify_def)

lemma set_parent_if_ok: "allocated h c \<Longrightarrow> set_parent_if h c q = Inr (put_parent h c q)"
  by (auto simp: allocated_def set_parent_if_def set_parent_def modify_def put_parent_def
      split: option.splits)

lemma put_parent_other: "c \<noteq> Some y \<Longrightarrow> put_parent h c q y = h y"
  by (auto simp: put_parent_def split: option.splits)

lemma put_parent_root_other: "x \<notin> nodes T \<Longrightarrow> put_parent h (root_of T) q x = h x"
  by (rule put_parent_other) (auto dest: root_of_in_nodes)

lemma put_parent_same:
  "h x = Some n \<Longrightarrow> put_parent h (Some x) q x = Some (n\<lparr>parent := q\<rparr>)"
  by (simp add: put_parent_def)

lemma put_parent_None [simp]: "put_parent h None q = h"
  by (simp add: put_parent_def)

lemma allocated_put_parent [simp]: "allocated (put_parent h c q) d = allocated h d"
  by (auto simp: allocated_def put_parent_def split: option.splits)

lemma allocated_root: "wf_tree h T \<Longrightarrow> allocated h (root_of T)"
  by (cases T) (auto simp: allocated_def split: option.splits)

lemma parent_is_put_parent: "allocated h c \<Longrightarrow> parent_is (put_parent h c q) c q"
  by (auto simp: allocated_def parent_is_def put_parent_def split: option.splits)

lemma wf_tree_put_parent:
  assumes "wf_tree h T" "\<forall>x. c = Some x \<longrightarrow> x \<notin> nodes T \<or> root_of T = Some x"
  shows "wf_tree (put_parent h c q) T"
proof (cases c)
  case None
  then show ?thesis using assms by simp
next
  case (Some x)
  show ?thesis
  proof (cases "h x")
    case None
    then show ?thesis using assms Some by (simp add: put_parent_def)
  next
    case (Some n)
    have "wf_tree (h(x \<mapsto> n\<lparr>parent := q\<rparr>)) T"
      using assms \<open>c = Some x\<close> Some by (intro wf_tree_parent_upd) auto
    then show ?thesis using Some \<open>c = Some x\<close> by (simp add: put_parent_def)
  qed
qed

lemma same_payload_refl [simp]: "same_payload h h"
  by (auto simp: same_payload_def split: option.splits)

lemma same_payload_trans: "same_payload h h1 \<Longrightarrow> same_payload h1 h2 \<Longrightarrow> same_payload h h2"
  unfolding same_payload_def
  apply (intro allI)
  subgoal for x
    apply (erule_tac x = x in allE)+
    apply (auto split: option.splits)
    done
  done

lemma same_payload_put_parent: "same_payload h (put_parent h c q)"
  by (auto simp: same_payload_def put_parent_def split: option.splits)

lemma same_payload_upd_left: "h a = Some n \<Longrightarrow> same_payload h (h(a \<mapsto> n\<lparr>left := p\<rparr>))"
  by (auto simp: same_payload_def split: option.splits)

lemma same_payload_upd_right: "h a = Some n \<Longrightarrow> same_payload h (h(a \<mapsto> n\<lparr>right := p\<rparr>))"
  by (auto simp: same_payload_def split: option.splits)

lemma same_payload_key: "same_payload h h' \<Longrightarrow> h x \<noteq> None \<Longrightarrow> the_key h' x = the_key h x"
  unfolding same_payload_def the_key_def
  by (erule_tac x = x in allE) (auto split: option.splits)

lemma same_payload_prio: "same_payload h h' \<Longrightarrow> h x \<noteq> None \<Longrightarrow> prio h' x = prio h x"
  unfolding same_payload_def prio_def
  by (erule_tac x = x in allE) (auto split: option.splits)

lemma same_payload_alloc: "same_payload h h' \<Longrightarrow> (h' x = None) = (h x = None)"
  unfolding same_payload_def
  by (erule_tac x = x in allE) (auto split: option.splits)

lemma inorder_split_shape:
  "inorder (fst (split_shape lt T)) @ inorder (snd (split_shape lt T)) = inorder T"
  by (induction T) auto

lemma nodes_split_shape:
  "nodes (fst (split_shape lt T)) \<union> nodes (snd (split_shape lt T)) = nodes T"
  using inorder_split_shape [of lt T, THEN arg_cong, of set] by simp

lemma count_split_shape:
  "count (fst (split_shape lt T)) + count (snd (split_shape lt T)) = count T"
  using inorder_split_shape [of lt T, THEN arg_cong, of length] by simp

lemma disjoint_split_shape:
  assumes "wf_tree h T"
  shows "nodes (fst (split_shape lt T)) \<inter> nodes (snd (split_shape lt T)) = {}"
proof -
  have "distinct (inorder (fst (split_shape lt T)) @ inorder (snd (split_shape lt T)))"
    using wf_tree_distinct [OF assms] by (simp add: inorder_split_shape)
  then show ?thesis by auto
qed

lemma treap_split_correct:
  assumes "wf_tree h T" "count T < n"
  shows "\<exists>h'. treap_split n cmp h (root_of T) k =
            Inr (h', root_of (fst (split_shape (lt_key cmp h k) T)),
                     root_of (snd (split_shape (lt_key cmp h k) T)))
          \<and> wf_tree h' (fst (split_shape (lt_key cmp h k) T))
          \<and> wf_tree h' (snd (split_shape (lt_key cmp h k) T))
          \<and> (\<forall>x. x \<notin> nodes T \<longrightarrow> h' x = h x)
          \<and> same_payload h h'"
  using assms
proof (induction T arbitrary: n)
  case Tip
  then obtain m where "n = Suc m" by (cases n) auto
  then show ?case by simp
next
  case (Fork l a r)
  let ?lt = "lt_key cmp h k"
  obtain m where n: "n = Suc m" using Fork.prems by (cases n) auto
  from Fork.prems obtain nd ka where
    ha: "h a = Some nd" and ka: "key nd = Some ka" and
    ln: "left nd = root_of l" and rn: "right nd = root_of r"
    by (auto split: option.splits)
  have wl: "wf_tree h l" and wr: "wf_tree h r" and al: "a \<notin> nodes l" and ar: "a \<notin> nodes r"
    and lr: "nodes l \<inter> nodes r = {}"
    and pl: "parent_is h (root_of l) (Some a)" and pr: "parent_is h (root_of r) (Some a)"
    using Fork.prems by auto
  have key: "key_of h (Some a) = Inr ka" using ha ka by (rule key_of_Some)
  have lta: "?lt a = cmp ka k" using ha ka by (simp add: lt_key_def the_key_def)
  show ?case
  proof (cases "cmp ka k")
    case True
    let ?rl = "fst (split_shape ?lt r)" and ?rr = "snd (split_shape ?lt r)"
    have cr: "count r < m" using Fork.prems n by simp
    from Fork.IH(2) [OF wr cr] obtain h1 where
      s1: "treap_split m cmp h (root_of r) k = Inr (h1, root_of ?rl, root_of ?rr)"
      and w1l: "wf_tree h1 ?rl" and w1r: "wf_tree h1 ?rr"
      and f1: "\<forall>x. x \<notin> nodes r \<longrightarrow> h1 x = h x" and p1: "same_payload h h1"
      by blast
    have nr: "nodes ?rl \<union> nodes ?rr = nodes r" by (rule nodes_split_shape)
    have dr: "nodes ?rl \<inter> nodes ?rr = {}" using wr by (rule disjoint_split_shape)
    have h1a: "h1 a = Some nd" using f1 ar ha by simp
    define h2 where "h2 = h1(a \<mapsto> nd\<lparr>right := root_of ?rl\<rparr>)"
    define h3 where "h3 = put_parent h2 (root_of ?rl) (Some a)"
    define h4 where "h4 = put_parent h3 (root_of ?rr) None"
    have a_rl: "a \<notin> nodes ?rl" and a_rr: "a \<notin> nodes ?rr" using nr ar by auto
    have root_rl: "root_of ?rl \<noteq> Some a" using a_rl by (auto dest: root_of_in_nodes)
    have root_rr: "root_of ?rr \<noteq> Some a" using a_rr by (auto dest: root_of_in_nodes)
    have w2l: "wf_tree h2 ?rl" using w1l a_rl unfolding h2_def
      by (subst wf_tree_frame [of _ _ h1]) auto
    have w2r: "wf_tree h2 ?rr" using w1r a_rr unfolding h2_def
      by (subst wf_tree_frame [of _ _ h1]) auto
    have al2: "allocated h2 (root_of ?rl)" using w2l by (rule allocated_root)
    have al3: "allocated h3 (root_of ?rr)" using allocated_root [OF w2r] by (simp add: h3_def)
    have e2: "set_right h1 a (root_of ?rl) = Inr h2"
      using h1a by (simp add: set_right_Some h2_def)
    have e3: "set_parent_if h2 (root_of ?rl) (Some a) = Inr h3"
      using al2 by (simp add: set_parent_if_ok h3_def)
    have e4: "set_parent_if h3 (root_of ?rr) None = Inr h4"
      using al3 by (simp add: set_parent_if_ok h4_def)
    have run: "treap_split n cmp h (Some a) k = Inr (h4, Some a, root_of ?rr)"
      using key True ha rn s1 e2 e3 e4 by (simp add: n load_Some)
    have w3l: "wf_tree h3 ?rl" unfolding h3_def using w2l by (rule wf_tree_put_parent) simp
    have w4l: "wf_tree h4 ?rl" unfolding h4_def using w3l
      by (rule wf_tree_put_parent) (use dr in \<open>auto dest: root_of_in_nodes\<close>)
    have w3r: "wf_tree h3 ?rr" unfolding h3_def using w2r
      by (rule wf_tree_put_parent) (use dr in \<open>auto dest: root_of_in_nodes\<close>)
    have w4r: "wf_tree h4 ?rr" unfolding h4_def using w3r by (rule wf_tree_put_parent) simp
    have h4a: "h4 a = Some (nd\<lparr>right := root_of ?rl\<rparr>)"
      using root_rl root_rr by (simp add: h4_def h3_def put_parent_other h2_def)
    have out: "h4 x = h x" if "x \<notin> nodes r" "x \<noteq> a" for x
    proof -
      have "root_of ?rl \<noteq> Some x" "root_of ?rr \<noteq> Some x"
        using that nr by (auto dest: root_of_in_nodes)
      then show ?thesis using that f1 by (simp add: h4_def h3_def put_parent_other h2_def)
    qed
    have w4ll: "wf_tree h4 l"
      by (subst wf_tree_frame [of _ _ h]) (use out al lr wl in auto)
    have p4l: "parent_is h4 (root_of l) (Some a)"
      by (subst parent_is_cong [of _ _ h]) (use out al lr pl in \<open>auto dest: root_of_in_nodes\<close>)
    have "parent_is h3 (root_of ?rl) (Some a)"
      unfolding h3_def using al2 by (rule parent_is_put_parent)
    moreover have "h4 x = h3 x" if "x \<in> nodes ?rl" for x
      unfolding h4_def by (rule put_parent_root_other) (use that dr in auto)
    ultimately have p4r: "parent_is h4 (root_of ?rl) (Some a)"
      by (subst parent_is_cong [of _ _ h3]) (auto dest: root_of_in_nodes)
    have wfl: "wf_tree h4 (Fork l a ?rl)"
      using h4a ka ln w4ll w4l p4l p4r al a_rl lr nr by auto
    have pay: "same_payload h h4"
    proof -
      have "same_payload h1 h2" unfolding h2_def using h1a by (rule same_payload_upd_right)
      moreover have "same_payload h2 h3" unfolding h3_def by (rule same_payload_put_parent)
      moreover have "same_payload h3 h4" unfolding h4_def by (rule same_payload_put_parent)
      ultimately show ?thesis using p1 by (blast intro: same_payload_trans)
    qed
    have "?lt a" using lta True by simp
    then show ?thesis using run wfl w4r out pay by auto
  next
    case False
    let ?ll = "fst (split_shape ?lt l)" and ?lr = "snd (split_shape ?lt l)"
    have cl: "count l < m" using Fork.prems n by simp
    from Fork.IH(1) [OF wl cl] obtain h1 where
      s1: "treap_split m cmp h (root_of l) k = Inr (h1, root_of ?ll, root_of ?lr)"
      and w1l: "wf_tree h1 ?ll" and w1r: "wf_tree h1 ?lr"
      and f1: "\<forall>x. x \<notin> nodes l \<longrightarrow> h1 x = h x" and p1: "same_payload h h1"
      by blast
    have nl: "nodes ?ll \<union> nodes ?lr = nodes l" by (rule nodes_split_shape)
    have dl: "nodes ?ll \<inter> nodes ?lr = {}" using wl by (rule disjoint_split_shape)
    have h1a: "h1 a = Some nd" using f1 al ha by simp
    define h2 where "h2 = h1(a \<mapsto> nd\<lparr>left := root_of ?lr\<rparr>)"
    define h3 where "h3 = put_parent h2 (root_of ?lr) (Some a)"
    define h4 where "h4 = put_parent h3 (root_of ?ll) None"
    have a_ll: "a \<notin> nodes ?ll" and a_lr: "a \<notin> nodes ?lr" using nl al by auto
    have root_ll: "root_of ?ll \<noteq> Some a" using a_ll by (auto dest: root_of_in_nodes)
    have root_lr: "root_of ?lr \<noteq> Some a" using a_lr by (auto dest: root_of_in_nodes)
    have w2l: "wf_tree h2 ?ll" using w1l a_ll unfolding h2_def
      by (subst wf_tree_frame [of _ _ h1]) auto
    have w2r: "wf_tree h2 ?lr" using w1r a_lr unfolding h2_def
      by (subst wf_tree_frame [of _ _ h1]) auto
    have al2: "allocated h2 (root_of ?lr)" using w2r by (rule allocated_root)
    have al3: "allocated h3 (root_of ?ll)" using allocated_root [OF w2l] by (simp add: h3_def)
    have e2: "set_left h1 a (root_of ?lr) = Inr h2"
      using h1a by (simp add: set_left_Some h2_def)
    have e3: "set_parent_if h2 (root_of ?lr) (Some a) = Inr h3"
      using al2 by (simp add: set_parent_if_ok h3_def)
    have e4: "set_parent_if h3 (root_of ?ll) None = Inr h4"
      using al3 by (simp add: set_parent_if_ok h4_def)
    have run: "treap_split n cmp h (Some a) k = Inr (h4, root_of ?ll, Some a)"
      using key False ha ln s1 e2 e3 e4 by (simp add: n load_Some)
    have w3r: "wf_tree h3 ?lr" unfolding h3_def using w2r by (rule wf_tree_put_parent) simp
    have w4r: "wf_tree h4 ?lr" unfolding h4_def using w3r
      by (rule wf_tree_put_parent) (use dl in \<open>auto dest: root_of_in_nodes\<close>)
    have w3l: "wf_tree h3 ?ll" unfolding h3_def using w2l
      by (rule wf_tree_put_parent) (use dl in \<open>auto dest: root_of_in_nodes\<close>)
    have w4l: "wf_tree h4 ?ll" unfolding h4_def using w3l by (rule wf_tree_put_parent) simp
    have h4a: "h4 a = Some (nd\<lparr>left := root_of ?lr\<rparr>)"
      using root_ll root_lr by (simp add: h4_def h3_def put_parent_other h2_def)
    have out: "h4 x = h x" if "x \<notin> nodes l" "x \<noteq> a" for x
    proof -
      have "root_of ?ll \<noteq> Some x" "root_of ?lr \<noteq> Some x"
        using that nl by (auto dest: root_of_in_nodes)
      then show ?thesis using that f1 by (simp add: h4_def h3_def put_parent_other h2_def)
    qed
    have w4rr: "wf_tree h4 r"
      by (subst wf_tree_frame [of _ _ h]) (use out ar lr wr in auto)
    have p4r: "parent_is h4 (root_of r) (Some a)"
      by (subst parent_is_cong [of _ _ h]) (use out ar lr pr in \<open>auto dest: root_of_in_nodes\<close>)
    have "parent_is h3 (root_of ?lr) (Some a)"
      unfolding h3_def using al2 by (rule parent_is_put_parent)
    moreover have "h4 x = h3 x" if "x \<in> nodes ?lr" for x
      unfolding h4_def by (rule put_parent_root_other) (use that dl in auto)
    ultimately have p4l: "parent_is h4 (root_of ?lr) (Some a)"
      by (subst parent_is_cong [of _ _ h3]) (auto dest: root_of_in_nodes)
    have wfr: "wf_tree h4 (Fork ?lr a r)"
      using h4a ka rn w4rr w4r p4l p4r ar a_lr lr nl by auto
    have pay: "same_payload h h4"
    proof -
      have "same_payload h1 h2" unfolding h2_def using h1a by (rule same_payload_upd_left)
      moreover have "same_payload h2 h3" unfolding h3_def by (rule same_payload_put_parent)
      moreover have "same_payload h3 h4" unfolding h4_def by (rule same_payload_put_parent)
      ultimately show ?thesis using p1 by (blast intro: same_payload_trans)
    qed
    have "\<not> ?lt a" using lta False by simp
    then show ?thesis using run wfr w4l out pay by auto
  qed
qed

lemma inorder_merge_shape: "inorder (merge_shape P T1 T2) = inorder T1 @ inorder T2"
  by (induction P T1 T2 rule: merge_shape.induct) auto

lemma nodes_merge_shape: "nodes (merge_shape P T1 T2) = nodes T1 \<union> nodes T2"
  using inorder_merge_shape [of P T1 T2, THEN arg_cong, of set] by simp

lemma count_merge_shape: "count (merge_shape P T1 T2) = count T1 + count T2"
  using inorder_merge_shape [of P T1 T2, THEN arg_cong, of length] by simp

lemma treap_merge_correct:
  assumes "wf_tree h T1" "wf_tree h T2" "nodes T1 \<inter> nodes T2 = {}" "count T1 + count T2 < n"
  shows "\<exists>h'. treap_merge n h (root_of T1) (root_of T2) =
            Inr (h', root_of (merge_shape (prio h) T1 T2))
          \<and> wf_tree h' (merge_shape (prio h) T1 T2)
          \<and> (\<forall>x. x \<notin> nodes T1 \<union> nodes T2 \<longrightarrow> h' x = h x)
          \<and> same_payload h h'"
  using assms
proof (induction "prio h" T1 T2 arbitrary: n rule: merge_shape.induct)
  case (1 t2)
  obtain m where n: "n = Suc m" using "1.prems" by (cases n) auto
  have "allocated h (root_of t2)" using "1.prems"(2) by (rule allocated_root)
  then have "treap_merge n h None (root_of t2) = Inr (put_parent h (root_of t2) None, root_of t2)"
    by (simp add: n set_parent_if_ok)
  moreover have "wf_tree (put_parent h (root_of t2) None) t2"
    using "1.prems"(2) by (rule wf_tree_put_parent) simp
  ultimately show ?case
    by (auto simp: put_parent_root_other same_payload_put_parent)
next
  case (2 l a r)
  obtain m where n: "n = Suc m" using "2.prems" by (cases n) auto
  have "allocated h (root_of (Fork l a r))" using "2.prems"(1) by (rule allocated_root)
  then have "treap_merge n h (Some a) None =
      Inr (put_parent h (root_of (Fork l a r)) None, Some a)"
    by (simp add: n set_parent_if_ok)
  moreover have "wf_tree (put_parent h (root_of (Fork l a r)) None) (Fork l a r)"
    using "2.prems"(1) by (rule wf_tree_put_parent) simp
  moreover have "\<forall>x. x \<notin> nodes (Fork l a r) \<longrightarrow> put_parent h (root_of (Fork l a r)) None x = h x"
    by (simp add: put_parent_other)
  ultimately show ?case
    using same_payload_put_parent [of h "root_of (Fork l a r)" None] by auto
next
  case (3 l1 a r1 l2 b r2)
  let ?T1 = "Fork l1 a r1" and ?T2 = "Fork l2 b r2"
  obtain m where n: "n = Suc m" using "3.prems" by (cases n) auto
  from "3.prems"(1) obtain n1 where
    ha: "h a = Some n1" and ka: "key n1 \<noteq> None" and
    l1: "left n1 = root_of l1" and r1: "right n1 = root_of r1"
    by (auto split: option.splits)
  from "3.prems"(2) obtain n2 where
    hb: "h b = Some n2" and kb: "key n2 \<noteq> None" and
    l2: "left n2 = root_of l2" and r2: "right n2 = root_of r2"
    by (auto split: option.splits)
  have pa: "prio h a = random_key n1" and pb: "prio h b = random_key n2"
    using ha hb by (simp_all add: prio_def)
  have ab: "a \<noteq> b" using "3.prems"(3) by auto
  show ?case
  proof (cases "prio h b < prio h a")
    case True
    let ?M = "merge_shape (prio h) r1 ?T2"
    have wr1: "wf_tree h r1" and wl1: "wf_tree h l1" using "3.prems"(1) by auto
    have d: "nodes r1 \<inter> nodes ?T2 = {}" using "3.prems"(3) by auto
    have c: "count r1 + count ?T2 < m" using "3.prems"(4) n by simp
    from "3.hyps"(1) [OF True wr1 "3.prems"(2) d c] obtain h1 where
      s1: "treap_merge m h (root_of r1) (root_of ?T2) = Inr (h1, root_of ?M)"
      and w1: "wf_tree h1 ?M"
      and f1: "\<forall>x. x \<notin> nodes r1 \<union> nodes ?T2 \<longrightarrow> h1 x = h x"
      and p1: "same_payload h h1" by blast
    have nM: "nodes ?M = nodes r1 \<union> nodes ?T2" by (rule nodes_merge_shape)
    have aM: "a \<notin> nodes ?M" using "3.prems"(1,3) nM by auto
    have h1a: "h1 a = Some n1" using f1 aM nM ha by simp
    define h2 where "h2 = h1(a \<mapsto> n1\<lparr>right := root_of ?M\<rparr>)"
    define h3 where "h3 = put_parent h2 (root_of ?M) (Some a)"
    have w2: "wf_tree h2 ?M" using w1 aM unfolding h2_def
      by (subst wf_tree_frame [of _ _ h1]) auto
    have al2: "allocated h2 (root_of ?M)" using w2 by (rule allocated_root)
    have e2: "set_right h1 a (root_of ?M) = Inr h2"
      using h1a by (simp add: set_right_Some h2_def)
    have e3: "set_parent_if h2 (root_of ?M) (Some a) = Inr h3"
      using al2 by (simp add: set_parent_if_ok h3_def)
    have run: "treap_merge n h (Some a) (Some b) = Inr (h3, Some a)"
      using ha hb True pa pb r1 s1 e2 e3 by (simp add: n load_Some)
    have w3: "wf_tree h3 ?M" unfolding h3_def using w2 by (rule wf_tree_put_parent) simp
    have h3a: "h3 a = Some (n1\<lparr>right := root_of ?M\<rparr>)"
      using aM by (simp add: h3_def put_parent_root_other h2_def)
    have out: "h3 x = h x" if "x \<notin> nodes ?M" "x \<noteq> a" for x
      using that f1 nM by (simp add: h3_def put_parent_root_other h2_def)
    have l1M: "nodes l1 \<inter> nodes ?M = {}" using "3.prems"(1,3) nM by auto
    have al1: "a \<notin> nodes l1" using "3.prems"(1) by auto
    have w3l: "wf_tree h3 l1"
      by (subst wf_tree_frame [of _ _ h]) (use out al1 l1M wl1 in auto)
    have "parent_is h (root_of l1) (Some a)" using "3.prems"(1) by auto
    then have p3l: "parent_is h3 (root_of l1) (Some a)"
      by (subst parent_is_cong [of _ _ h]) (use out al1 l1M in \<open>auto dest: root_of_in_nodes\<close>)
    have p3r: "parent_is h3 (root_of ?M) (Some a)"
      unfolding h3_def using al2 by (rule parent_is_put_parent)
    have wf: "wf_tree h3 (Fork l1 a ?M)"
      using h3a ka l1 w3l w3 p3l p3r al1 aM l1M by auto
    have pay: "same_payload h h3"
    proof -
      have "same_payload h1 h2" unfolding h2_def using h1a by (rule same_payload_upd_right)
      moreover have "same_payload h2 h3" unfolding h3_def by (rule same_payload_put_parent)
      ultimately show ?thesis using p1 by (blast intro: same_payload_trans)
    qed
    have "\<forall>x. x \<notin> nodes ?T1 \<union> nodes ?T2 \<longrightarrow> h3 x = h x"
      using out nM by auto
    then show ?thesis using run wf pay True by simp
  next
    case False
    let ?M = "merge_shape (prio h) ?T1 l2"
    have wr2: "wf_tree h r2" and wl2: "wf_tree h l2" using "3.prems"(2) by auto
    have d: "nodes ?T1 \<inter> nodes l2 = {}" using "3.prems"(3) by auto
    have c: "count ?T1 + count l2 < m" using "3.prems"(4) n by simp
    from "3.hyps"(2) [OF False "3.prems"(1) wl2 d c] obtain h1 where
      s1: "treap_merge m h (root_of ?T1) (root_of l2) = Inr (h1, root_of ?M)"
      and w1: "wf_tree h1 ?M"
      and f1: "\<forall>x. x \<notin> nodes ?T1 \<union> nodes l2 \<longrightarrow> h1 x = h x"
      and p1: "same_payload h h1" by blast
    have nM: "nodes ?M = nodes ?T1 \<union> nodes l2" by (rule nodes_merge_shape)
    have bM: "b \<notin> nodes ?M" using "3.prems"(2,3) nM by auto
    have h1b: "h1 b = Some n2" using f1 bM nM hb by simp
    define h2 where "h2 = h1(b \<mapsto> n2\<lparr>left := root_of ?M\<rparr>)"
    define h3 where "h3 = put_parent h2 (root_of ?M) (Some b)"
    have w2: "wf_tree h2 ?M" using w1 bM unfolding h2_def
      by (subst wf_tree_frame [of _ _ h1]) auto
    have al2: "allocated h2 (root_of ?M)" using w2 by (rule allocated_root)
    have e2: "set_left h1 b (root_of ?M) = Inr h2"
      using h1b by (simp add: set_left_Some h2_def)
    have e3: "set_parent_if h2 (root_of ?M) (Some b) = Inr h3"
      using al2 by (simp add: set_parent_if_ok h3_def)
    have run: "treap_merge n h (Some a) (Some b) = Inr (h3, Some b)"
      using ha hb False pa pb l2 s1 e2 e3 by (simp add: n load_Some)
    have w3: "wf_tree h3 ?M" unfolding h3_def using w2 by (rule wf_tree_put_parent) simp
    have h3b: "h3 b = Some (n2\<lparr>left := root_of ?M\<rparr>)"
      using bM by (simp add: h3_def put_parent_root_other h2_def)
    have out: "h3 x = h x" if "x \<notin> nodes ?M" "x \<noteq> b" for x
      using that f1 nM by (simp add: h3_def put_parent_root_other h2_def)
    have r2M: "nodes r2 \<inter> nodes ?M = {}" using "3.prems"(2,3) nM by auto
    have br2: "b \<notin> nodes r2" using "3.prems"(2) by auto
    have w3r: "wf_tree h3 r2"
      by (subst wf_tree_frame [of _ _ h]) (use out br2 r2M wr2 in auto)
    have "parent_is h (root_of r2) (Some b)" using "3.prems"(2) by auto
    then have p3r: "parent_is h3 (root_of r2) (Some b)"
      by (subst parent_is_cong [of _ _ h]) (use out br2 r2M in \<open>auto dest: root_of_in_nodes\<close>)
    have p3l: "parent_is h3 (root_of ?M) (Some b)"
      unfolding h3_def using al2 by (rule parent_is_put_parent)
    have wf: "wf_tree h3 (Fork ?M b r2)"
      using h3b kb r2 w3r w3 p3l p3r br2 bM r2M by auto
    have pay: "same_payload h h3"
    proof -
      have "same_payload h1 h2" unfolding h2_def using h1b by (rule same_payload_upd_left)
      moreover have "same_payload h2 h3" unfolding h3_def by (rule same_payload_put_parent)
      ultimately show ?thesis using p1 by (blast intro: same_payload_trans)
    qed
    have "\<forall>x. x \<notin> nodes ?T1 \<union> nodes ?T2 \<longrightarrow> h3 x = h x"
      using out nM by auto
    then show ?thesis using run wf pay False by simp
  qed
qed

lemma swo_irrefl: "strict_weak_order cmp \<Longrightarrow> \<not> cmp x x"
  by (simp add: strict_weak_order_def)

lemma swo_trans: "strict_weak_order cmp \<Longrightarrow> cmp x y \<Longrightarrow> cmp y z \<Longrightarrow> cmp x z"
  unfolding strict_weak_order_def by blast

lemma swo_equiv_trans:
  "strict_weak_order cmp \<Longrightarrow> equiv_keys cmp x y \<Longrightarrow> equiv_keys cmp y z \<Longrightarrow> equiv_keys cmp x z"
  unfolding strict_weak_order_def by blast

lemma equiv_keys_sym: "equiv_keys cmp x y \<Longrightarrow> equiv_keys cmp y x"
  by (simp add: equiv_keys_def)

lemma sorted_fork:
  assumes "sorted_wrt cmp (map K (inorder (Fork l a r)))"
  shows "sorted_wrt cmp (map K (inorder l))" "sorted_wrt cmp (map K (inorder r))"
    "\<forall>x\<in>nodes l. cmp (K x) (K a)" "\<forall>x\<in>nodes r. cmp (K a) (K x)"
  using assms by (auto simp: sorted_wrt_append)

lemma exist_loop_correct:
  assumes "wf_tree h T" "sorted_wrt (comparator t) (map (the_key h) (inorder T))"
    "strict_weak_order (comparator t)" "count T < n"
  shows "(a \<in> nodes T \<and> equiv_keys (comparator t) (the_key h a) k
            \<longrightarrow> exist_loop n h t (root_of T) k = Inr (Some a))
       \<and> ((\<forall>x\<in>nodes T. \<not> equiv_keys (comparator t) (the_key h x) k)
            \<longrightarrow> exist_loop n h t (root_of T) k = Inr (treap_end t))"
  using assms
proof (induction T arbitrary: n)
  case Tip
  then obtain m where "n = Suc m" by (cases n) auto
  then show ?case by simp
next
  case (Fork l x r)
  let ?cmp = "comparator t"
  obtain m where n: "n = Suc m" using Fork.prems by (cases n) auto
  from Fork.prems(1) obtain nd kx where
    hx: "h x = Some nd" and kx: "key nd = Some kx" and
    ln: "left nd = root_of l" and rn: "right nd = root_of r"
    by (auto split: option.splits)
  have K: "the_key h x = kx" using hx kx by (simp add: the_key_def)
  have key: "key_of h (Some x) = Inr kx" using hx kx by (rule key_of_Some)
  have wl: "wf_tree h l" and wr: "wf_tree h r" using Fork.prems(1) by auto
  note s = sorted_fork [OF Fork.prems(2)]
  have cl: "count l < m" and cr: "count r < m" using Fork.prems(4) n by auto
  note IHl = Fork.IH(1) [OF wl s(1) Fork.prems(3) cl]
  note IHr = Fork.IH(2) [OF wr s(2) Fork.prems(3) cr]
  note tr = swo_trans [OF Fork.prems(3)]
  consider (right) "?cmp kx k" | (left) "\<not> ?cmp kx k" "?cmp k kx"
    | (found) "\<not> ?cmp kx k" "\<not> ?cmp k kx" by blast
  then show ?case
  proof cases
    case right
    have run: "exist_loop n h t (Some x) k = exist_loop m h t (root_of r) k"
      using key right hx rn by (simp add: n load_Some)
    have notl: "\<not> equiv_keys ?cmp (the_key h y) k" if "y \<in> nodes l" for y
    proof -
      have "?cmp (the_key h y) kx" using s(3) that K by auto
      then have "?cmp (the_key h y) k" using right by (rule tr)
      then show ?thesis by (simp add: equiv_keys_def)
    qed
    have notx: "\<not> equiv_keys ?cmp (the_key h x) k"
      using right K by (simp add: equiv_keys_def)
    show ?thesis using run IHr notl notx by auto
  next
    case left
    have run: "exist_loop n h t (Some x) k = exist_loop m h t (root_of l) k"
      using key left hx ln by (simp add: n load_Some)
    have notr: "\<not> equiv_keys ?cmp (the_key h y) k" if "y \<in> nodes r" for y
    proof -
      have "?cmp kx (the_key h y)" using s(4) that K by auto
      with left(2) have "?cmp k (the_key h y)" by (rule tr)
      then show ?thesis by (simp add: equiv_keys_def)
    qed
    have notx: "\<not> equiv_keys ?cmp (the_key h x) k"
      using left K by (simp add: equiv_keys_def)
    show ?thesis using run IHl notr notx by auto
  next
    case found
    have run: "exist_loop n h t (Some x) k = Inr (Some x)"
      using key found by (simp add: n)
    have eqx: "equiv_keys ?cmp (the_key h x) k"
      using found K by (simp add: equiv_keys_def)
    have uniq: "y = x" if "y \<in> nodes (Fork l x r)" "equiv_keys ?cmp (the_key h y) k" for y
    proof (rule ccontr)
      assume "y \<noteq> x"
      have "equiv_keys ?cmp (the_key h y) (the_key h x)"
        using swo_equiv_trans [OF Fork.prems(3) that(2) equiv_keys_sym [OF eqx]] .
      moreover have "?cmp (the_key h y) (the_key h x) \<or> ?cmp (the_key h x) (the_key h y)"
        using that(1) \<open>y \<noteq> x\<close> s(3,4) by auto
      ultimately show False by (auto simp: equiv_keys_def)
    qed
    show ?thesis using run eqx uniq by auto
  qed
qed

lemma get_root_inv: "treap_inv h t T \<Longrightarrow> get_root h t = Inr (root_of T)"
  by (auto simp: treap_inv_def get_root_def load_def split: option.splits)

lemma treap_exist_correct:
  assumes "treap_inv h t T" "count T < n"
  shows "(a \<in> nodes T \<and> equiv_keys (comparator t) (the_key h a) k
            \<longrightarrow> treap_exist n h t k = Inr (Some a))
       \<and> ((\<forall>x\<in>nodes T. \<not> equiv_keys (comparator t) (the_key h x) k)
            \<longrightarrow> treap_exist n h t k = Inr (treap_end t))"
proof -
  have "wf_tree h T" "sorted_wrt (comparator t) (map (the_key h) (inorder T))"
    "strict_weak_order (comparator t)" using assms(1) by (auto simp: treap_inv_def)
  from exist_loop_correct [OF this assms(2), of a k] show ?thesis
    by (simp add: treap_exist_def get_root_inv [OF assms(1)])
qed

lemma split_shape_sorted:
  assumes "sorted_wrt cmp (map K (inorder T))" "\<forall>x y z. cmp x y \<longrightarrow> cmp y z \<longrightarrow> cmp x z"
  shows "(\<forall>x\<in>nodes (fst (split_shape (\<lambda>a. cmp (K a) k) T)). cmp (K x) k)
       \<and> (\<forall>x\<in>nodes (snd (split_shape (\<lambda>a. cmp (K a) k) T)). \<not> cmp (K x) k)"
  using assms(1)
proof (induction T)
  case Tip
  then show ?case by simp
next
  case (Fork l a r)
  define lt where "lt = (\<lambda>a. cmp (K a) k)"
  note s = sorted_fork [OF Fork.prems]
  have IHl: "(\<forall>x\<in>nodes (fst (split_shape lt l)). cmp (K x) k)
       \<and> (\<forall>x\<in>nodes (snd (split_shape lt l)). \<not> cmp (K x) k)"
    unfolding lt_def by (rule Fork.IH(1) [OF s(1)])
  have IHr: "(\<forall>x\<in>nodes (fst (split_shape lt r)). cmp (K x) k)
       \<and> (\<forall>x\<in>nodes (snd (split_shape lt r)). \<not> cmp (K x) k)"
    unfolding lt_def by (rule Fork.IH(2) [OF s(2)])
  have goal: "(\<forall>x\<in>nodes (fst (split_shape lt (Fork l a r))). cmp (K x) k)
       \<and> (\<forall>x\<in>nodes (snd (split_shape lt (Fork l a r))). \<not> cmp (K x) k)"
  proof (cases "lt a")
    case True
    then have a: "cmp (K a) k" by (simp add: lt_def)
    have l: "cmp (K x) k" if "x \<in> nodes l" for x
    proof -
      have "cmp (K x) (K a)" using s(3) that by blast
      with a assms(2) show ?thesis by blast
    qed
    have "split_shape lt (Fork l a r) = (Fork l a (fst (split_shape lt r)), snd (split_shape lt r))"
      using True by simp
    then show ?thesis using a l IHr by simp blast
  next
    case False
    then have a: "\<not> cmp (K a) k" by (simp add: lt_def)
    have r: "\<not> cmp (K x) k" if "x \<in> nodes r" for x
    proof -
      have "cmp (K a) (K x)" using s(4) that by blast
      with a assms(2) show ?thesis by blast
    qed
    have "split_shape lt (Fork l a r) = (fst (split_shape lt l), Fork (snd (split_shape lt l)) a r)"
      using False by simp
    then show ?thesis using a r IHl by simp blast
  qed
  then show ?case unfolding lt_def .
qed

lemma sorted_wrt_insert_mid:
  "sorted_wrt cmp (map K (xs @ ys)) \<Longrightarrow> \<forall>x\<in>set xs. cmp (K x) (K a)
     \<Longrightarrow> \<forall>y\<in>set ys. cmp (K a) (K y) \<Longrightarrow> sorted_wrt cmp (map K (xs @ a # ys))"
  by (auto simp: sorted_wrt_append)

lemma map_the_key_cong:
  assumes "same_payload h h'" "\<forall>x\<in>set xs. h x \<noteq> None"
  shows "map (the_key h') xs = map (the_key h) xs"
  using assms by (auto intro: same_payload_key)

lemma treap_inv_head:
  "treap_inv h t T \<Longrightarrow> \<exists>hn. h (head_node t) = Some hn \<and> key hn = None \<and> parent hn = None
     \<and> right hn = None \<and> left hn = root_of T"
  by (auto simp: treap_inv_def split: option.splits)

lemma treap_insert_correct:
  assumes inv: "treap_inv h t T"
    and cell: "h a = Some na" "key na = Some k" "left na = None" "right na = None"
    and fresh: "a \<notin> nodes T" "a \<noteq> head_node t"
    and fuel: "count T + 1 < n"
    and absent: "\<forall>x\<in>nodes T. \<not> equiv_keys (comparator t) (the_key h x) k"
  shows "\<exists>h' T'. treap_insert n h t a = Inr (h', Some a) \<and> treap_inv h' t T'
           \<and> nodes T' = insert a (nodes T) \<and> count T' = Suc (count T)
           \<and> (\<forall>x. x \<notin> insert a (insert (head_node t) (nodes T)) \<longrightarrow> h' x = h x)
           \<and> same_payload h h'"
proof -
  let ?cmp = "comparator t" and ?hd = "head_node t"
  let ?lt = "lt_key ?cmp h k"
  let ?Tl = "fst (split_shape ?lt T)" and ?Tr = "snd (split_shape ?lt T)"
  have wf: "wf_tree h T" and swo: "strict_weak_order ?cmp"
    and srt: "sorted_wrt ?cmp (map (the_key h) (inorder T))"
    and hdT: "?hd \<notin> nodes T"
    using inv by (auto simp: treap_inv_def)
  from treap_inv_head [OF inv] obtain hn where
    hh: "h ?hd = Some hn" and hk: "key hn = None" and hp: "parent hn = None"
    and hr: "right hn = None" and hl: "left hn = root_of T" by blast
  have root: "get_root h t = Inr (root_of T)" using inv by (rule get_root_inv)
  have keya: "key_of h (Some a) = Inr k" using cell(1,2) by (rule key_of_Some)
  have c0: "count T < n" using fuel by simp
  from treap_split_correct [OF wf c0, of ?cmp k] obtain h1 where
    s1: "treap_split n ?cmp h (root_of T) k = Inr (h1, root_of ?Tl, root_of ?Tr)"
    and w1l: "wf_tree h1 ?Tl" and w1r: "wf_tree h1 ?Tr"
    and f1: "\<forall>x. x \<notin> nodes T \<longrightarrow> h1 x = h x" and p1: "same_payload h h1"
    by blast
  have nT: "nodes ?Tl \<union> nodes ?Tr = nodes T" by (rule nodes_split_shape)
  have dT: "nodes ?Tl \<inter> nodes ?Tr = {}" using wf by (rule disjoint_split_shape)
  have cT: "count ?Tl + count ?Tr = count T" by (rule count_split_shape)
  have h1a: "h1 a = Some na" using f1 fresh(1) cell(1) by simp
  let ?A = "Fork Tip a Tip"
  have wA: "wf_tree h1 ?A" using h1a cell by (simp add: parent_is_def)
  have dA: "nodes ?Tl \<inter> nodes ?A = {}" using fresh(1) nT by auto
  have cA: "count ?Tl + count ?A < n" using fuel cT by simp
  let ?M1 = "merge_shape (prio h1) ?Tl ?A"
  from treap_merge_correct [OF w1l wA dA cA] obtain h2 where
    s2: "treap_merge n h1 (root_of ?Tl) (root_of ?A) = Inr (h2, root_of ?M1)"
    and w2: "wf_tree h2 ?M1"
    and f2: "\<forall>x. x \<notin> nodes ?Tl \<union> nodes ?A \<longrightarrow> h2 x = h1 x"
    and p2: "same_payload h1 h2" by blast
  have nM1: "nodes ?M1 = nodes ?Tl \<union> nodes ?A" by (rule nodes_merge_shape)
  have w2r: "wf_tree h2 ?Tr"
    by (subst wf_tree_frame [of _ _ h1]) (use f2 dT fresh(1) nT w1r in auto)
  have dM: "nodes ?M1 \<inter> nodes ?Tr = {}" using nM1 dT fresh(1) nT by auto
  have cM: "count ?M1 + count ?Tr < n" using fuel cT by (simp add: count_merge_shape)
  let ?M2 = "merge_shape (prio h2) ?M1 ?Tr"
  from treap_merge_correct [OF w2 w2r dM cM] obtain h3 where
    s3: "treap_merge n h2 (root_of ?M1) (root_of ?Tr) = Inr (h3, root_of ?M2)"
    and w3: "wf_tree h3 ?M2"
    and f3: "\<forall>x. x \<notin> nodes ?M1 \<union> nodes ?Tr \<longrightarrow> h3 x = h2 x"
    and p3: "same_payload h2 h3" by blast
  have nM2: "nodes ?M2 = insert a (nodes T)"
    using nM1 nT by (auto simp: nodes_merge_shape)
  have iM2: "inorder ?M2 = inorder ?Tl @ a # inorder ?Tr"
    by (simp add: inorder_merge_shape)
  have cM2: "count ?M2 = Suc (count T)" using cT by (simp add: count_merge_shape)
  have hdM2: "?hd \<notin> nodes ?M2" using nM2 hdT fresh(2) by auto
  have h3hd: "h3 ?hd = Some hn"
    using f3 f2 f1 hdM2 hdT hh nM1 nM2 nT fresh(2) by (auto simp: nodes_merge_shape)
  obtain ra where ra: "root_of ?M2 = Some ra"
    using nM2 by (cases ?M2) auto
  define h4 where "h4 = h3(?hd \<mapsto> hn\<lparr>left := root_of ?M2\<rparr>)"
  define h5 where "h5 = put_parent h4 (root_of ?M2) (Some ?hd)"
  have e4: "set_left h3 ?hd (root_of ?M2) = Inr h4"
    using h3hd by (simp add: set_left_Some h4_def)
  have w4: "wf_tree h4 ?M2" unfolding h4_def
    by (subst wf_tree_frame [of _ _ h3]) (use hdM2 w3 in auto)
  have al4: "allocated h4 (root_of ?M2)" using w4 by (rule allocated_root)
  have "set_parent_if h4 (root_of ?M2) (Some ?hd) = Inr h5"
    using al4 by (simp add: set_parent_if_ok h5_def)
  then have e5: "set_parent h4 ra (Some ?hd) = Inr h5"
    by (simp add: ra set_parent_if_def)
  have run: "treap_insert n h t a = Inr (h5, Some a)"
    using root keya s1 s2 s3 e4 e5 ra by (simp add: treap_insert_def)
  have w5: "wf_tree h5 ?M2" unfolding h5_def using w4 by (rule wf_tree_put_parent) simp
  have h5hd: "h5 ?hd = Some (hn\<lparr>left := root_of ?M2\<rparr>)"
    using hdM2 by (simp add: h5_def put_parent_root_other h4_def)
  have p5: "parent_is h5 (root_of ?M2) (Some ?hd)"
    unfolding h5_def using al4 by (rule parent_is_put_parent)
  have pay: "same_payload h h5"
  proof -
    have "same_payload h3 h4" unfolding h4_def using h3hd by (rule same_payload_upd_left)
    moreover have "same_payload h4 h5" unfolding h5_def by (rule same_payload_put_parent)
    ultimately show ?thesis using p1 p2 p3 by (blast intro: same_payload_trans)
  qed
  have out: "\<forall>x. x \<notin> insert a (insert ?hd (nodes T)) \<longrightarrow> h5 x = h x"
  proof (intro allI impI)
    fix x assume x: "x \<notin> insert a (insert ?hd (nodes T))"
    then have "x \<notin> nodes ?M2" using nM2 by simp
    then have "h5 x = h3 x" using x by (simp add: h5_def put_parent_root_other h4_def)
    also have "h3 x = h2 x" using f3 x nM1 nT by auto
    also have "h2 x = h1 x" using f2 x nT by auto
    also have "h1 x = h x" using f1 x by auto
    finally show "h5 x = h x" .
  qed
  have sp: "(\<forall>x\<in>nodes ?Tl. ?cmp (the_key h x) k) \<and> (\<forall>x\<in>nodes ?Tr. \<not> ?cmp (the_key h x) k)"
    unfolding lt_key_def
    by (rule split_shape_sorted [OF srt]) (use swo in \<open>auto simp: strict_weak_order_def\<close>)
  have Ka: "the_key h a = k" using cell(1,2) by (simp add: the_key_def)
  have gt: "?cmp k (the_key h x)" if "x \<in> nodes ?Tr" for x
  proof -
    have "x \<in> nodes T" using that nT by auto
    then have "\<not> equiv_keys ?cmp (the_key h x) k" using absent by simp
    moreover have "\<not> ?cmp (the_key h x) k" using sp that by simp
    ultimately show ?thesis by (simp add: equiv_keys_def)
  qed
  have "sorted_wrt ?cmp (map (the_key h) (inorder ?Tl @ inorder ?Tr))"
    using srt by (simp only: inorder_split_shape)
  then have "sorted_wrt ?cmp (map (the_key h) (inorder ?Tl @ a # inorder ?Tr))"
    by (rule sorted_wrt_insert_mid) (use sp gt Ka in auto)
  moreover have "map (the_key h5) (inorder ?M2) = map (the_key h) (inorder ?M2)"
  proof (rule map_the_key_cong [OF pay])
    show "\<forall>x\<in>set (inorder ?M2). h x \<noteq> None"
      using nM2 cell(1) wf_tree_alloc [OF wf] by auto
  qed
  ultimately have srt5: "sorted_wrt ?cmp (map (the_key h5) (inorder ?M2))"
    by (simp only: iM2)
  have "treap_inv h5 t ?M2"
    unfolding treap_inv_def using h5hd hk hp hr p5 hdM2 w5 swo srt5 by simp
  then show ?thesis using run nM2 cM2 out pay by blast
qed

lemma count_card: "wf_tree h T \<Longrightarrow> count T = card (nodes T)"
  using distinct_card [OF wf_tree_distinct, of h T] by simp

lemma treap_inv_frame:
  assumes "treap_inv h t T" "\<forall>x\<in>insert (head_node t) (nodes T). h' x = h x"
  shows "treap_inv h' t T"
proof -
  have wf: "wf_tree h' T" using assms by (subst wf_tree_frame [of _ _ h]) (auto simp: treap_inv_def)
  have par: "parent_is h' (root_of T) (Some (head_node t))"
    using assms by (subst parent_is_cong [of _ _ h]) (auto simp: treap_inv_def dest: root_of_in_nodes)
  have km: "map (the_key h') (inorder T) = map (the_key h) (inorder T)"
    using assms(2) by (auto simp: the_key_def)
  have "sorted_wrt (comparator t) (map (the_key h) (inorder T))"
    using assms(1) by (simp add: treap_inv_def)
  then have srt: "sorted_wrt (comparator t) (map (the_key h') (inorder T))"
    by (simp only: km)
  show ?thesis using assms wf par srt by (simp add: treap_inv_def)
qed

lemma bimap_inv_counts:
  assumes "bimap_inv s b TL TR"
  shows "count TR = count TL"
proof -
  have "wf_tree (lnodes s) TL" "wf_tree (rnodes s) TR" "nodes TL = nodes TR"
    using assms by (auto simp: bimap_inv_def treap_inv_def)
  then show ?thesis by (simp add: count_card)
qed

lemma find_left_present:
  assumes "bimap_inv s b TL TR" "count TL < n" "x \<in> nodes TL"
    "equiv_keys (comparator (left_treap b)) (the_key (lnodes s) x) l"
  shows "find_left n s b l = Inr (LeftIt (Some x))"
proof -
  have "treap_inv (lnodes s) (left_treap b) TL" using assms(1) by (simp add: bimap_inv_def)
  from treap_exist_correct [OF this assms(2), of x l] assms(3,4)
  show ?thesis by (simp add: find_left_def)
qed

lemma find_left_absent:
  assumes "bimap_inv s b TL TR" "count TL < n"
    "\<forall>x\<in>nodes TL. \<not> equiv_keys (comparator (left_treap b)) (the_key (lnodes s) x) l"
  shows "find_left n s b l = Inr (end_left b)"
proof -
  have "treap_inv (lnodes s) (left_treap b) TL" using assms(1) by (simp add: bimap_inv_def)
  from treap_exist_correct [OF this assms(2), of _ l] assms(3)
  show ?thesis by (simp add: find_left_def end_left_def)
qed

lemma find_right_present:
  assumes "bimap_inv s b TL TR" "count TL < n" "x \<in> nodes TR"
    "equiv_keys (comparator (right_treap b)) (the_key (rnodes s) x) r"
  shows "find_right n s b r = Inr (RightIt (Some x))"
proof -
  have "treap_inv (rnodes s) (right_treap b) TR" using assms(1) by (simp add: bimap_inv_def)
  moreover have "count TR < n" using assms(1,2) by (simp add: bimap_inv_counts)
  ultimately show ?thesis
    using treap_exist_correct [of "rnodes s" "right_treap b" TR n x r] assms(3,4)
    by (simp add: find_right_def)
qed

lemma find_right_absent:
  assumes "bimap_inv s b TL TR" "count TL < n"
    "\<forall>x\<in>nodes TR. \<not> equiv_keys (comparator (right_treap b)) (the_key (rnodes s) x) r"
  shows "find_right n s b r = Inr (end_right b)"
proof -
  have "treap_inv (rnodes s) (right_treap b) TR" using assms(1) by (simp add: bimap_inv_def)
  moreover have "count TR < n" using assms(1,2) by (simp add: bimap_inv_counts)
  ultimately show ?thesis
    using treap_exist_correct [of "rnodes s" "right_treap b" TR n _ r] assms(3)
    by (simp add: find_right_def end_right_def)
qed

lemma node_not_head_left:
  "bimap_inv s b TL TR \<Longrightarrow> x \<in> nodes TL \<Longrightarrow> LeftIt (Some x) \<noteq> end_left b"
  by (auto simp: bimap_inv_def treap_inv_def end_left_def treap_end_def)

lemma node_not_head_right:
  "bimap_inv s b TL TR \<Longrightarrow> x \<in> nodes TR \<Longrightarrow> RightIt (Some x) \<noteq> end_right b"
  by (auto simp: bimap_inv_def treap_inv_def end_right_def treap_end_def)

lemma insert_rejected_present:
  assumes inv: "bimap_inv s b TL TR" and ne: "\<not> bimap_empty b" and fuel: "count TL < n"
    and dup: "(\<exists>x\<in>nodes TL. equiv_keys (comparator (left_treap b)) (the_key (lnodes s) x) l)
            \<or> (\<exists>x\<in>nodes TR. equiv_keys (comparator (right_treap b)) (the_key (rnodes s) x) r)"
  shows "insert_rejected n s b l r = Inr True"
proof (cases "\<exists>x\<in>nodes TL. equiv_keys (comparator (left_treap b)) (the_key (lnodes s) x) l")
  case True
  then obtain x where x: "x \<in> nodes TL"
    "equiv_keys (comparator (left_treap b)) (the_key (lnodes s) x) l" by blast
  have "find_left n s b l = Inr (LeftIt (Some x))"
    using inv fuel x by (rule find_left_present)
  then show ?thesis using ne node_not_head_left [OF inv x(1)]
    by (simp add: insert_rejected_def)
next
  case False
  then have fl: "find_left n s b l = Inr (end_left b)"
    using find_left_absent [OF inv fuel] by blast
  from False dup obtain y where y: "y \<in> nodes TR"
    "equiv_keys (comparator (right_treap b)) (the_key (rnodes s) y) r" by blast
  have "find_right n s b r = Inr (RightIt (Some y))"
    using inv fuel y by (rule find_right_present)
  then show ?thesis using ne fl node_not_head_right [OF inv y(1)]
    by (simp add: insert_rejected_def)
qed

lemma insert_rejected_absent:
  assumes inv: "bimap_inv s b TL TR" and fuel: "count TL < n"
    and al: "\<forall>x\<in>nodes TL. \<not> equiv_keys (comparator (left_treap b)) (the_key (lnodes s) x) l"
    and ar: "\<forall>x\<in>nodes TR. \<not> equiv_keys (comparator (right_treap b)) (the_key (rnodes s) x) r"
  shows "insert_rejected n s b l r = Inr False"
  using find_left_absent [OF inv fuel al] find_right_absent [OF inv fuel ar]
  by (simp add: insert_rejected_def)

lemma bimap_insert_rejects:
  assumes inv: "bimap_inv s b TL TR" and ne: "\<not> bimap_empty b" and fuel: "count TL < n"
    and dup: "(\<exists>x\<in>nodes TL. equiv_keys (comparator (left_treap b)) (the_key (lnodes s) x) l)
            \<or> (\<exists>x\<in>nodes TR. equiv_keys (comparator (right_treap b)) (the_key (rnodes s) x) r)"
  shows "bimap_insert n alloc s b l r = Inr (s, b, end_left b)"
  using insert_rejected_present [OF inv ne fuel dup] by (simp add: bimap_insert_def)

lemma pair_at_keys:
  "lnodes s a = Some nl \<Longrightarrow> rnodes s a = Some nr \<Longrightarrow> key nl = Some l \<Longrightarrow> key nr = Some r
     \<Longrightarrow> pair_at s a = Some (l, r)"
  by (simp add: pair_at_def)

lemma pair_at_same_payload:
  assumes "same_payload (lnodes s) (lnodes s')" "same_payload (rnodes s) (rnodes s')"
  shows "pair_at s' x = pair_at s x"
proof -
  from assms(1) have l: "case lnodes s x of None \<Rightarrow> lnodes s' x = None
     | Some n \<Rightarrow> (case lnodes s' x of None \<Rightarrow> False | Some n' \<Rightarrow> key n' = key n \<and> random_key n' = random_key n)"
    unfolding same_payload_def by blast
  from assms(2) have r: "case rnodes s x of None \<Rightarrow> rnodes s' x = None
     | Some n \<Rightarrow> (case rnodes s' x of None \<Rightarrow> False | Some n' \<Rightarrow> key n' = key n \<and> random_key n' = random_key n)"
    unfolding same_payload_def by blast
  show ?thesis using l r by (auto simp: pair_at_def split: option.splits)
qed

lemma bimap_insert_stores:
  assumes inv: "bimap_inv s b TL TR"
    and fresh: "lnodes s a = None" "rnodes s a = None"
    and al: "\<forall>x\<in>nodes TL. \<not> equiv_keys (comparator (left_treap b)) (the_key (lnodes s) x) l"
    and ar: "\<forall>x\<in>nodes TR. \<not> equiv_keys (comparator (right_treap b)) (the_key (rnodes s) x) r"
    and fuel: "count TL + 1 < n"
    and room: "count TL + 1 < 2 ^ 64"
  shows "\<exists>s' TL' TR'.
           bimap_insert n (Some (a, pl, pr)) s b l r =
             Inr (s', b\<lparr>size_field := size_field b + 1\<rparr>, LeftIt (Some a))
         \<and> bimap_inv s' (b\<lparr>size_field := size_field b + 1\<rparr>) TL' TR'
         \<and> nodes TL' = insert a (nodes TL)
         \<and> pair_at s' a = Some (l, r)
         \<and> (\<forall>x. x \<noteq> a \<longrightarrow> pair_at s' x = pair_at s x)
         \<and> (\<forall>x. x \<notin> insert a (insert (head_node (left_treap b)) (nodes TL))
                \<longrightarrow> lnodes s' x = lnodes s x)
         \<and> (\<forall>x. x \<notin> insert a (insert (head_node (right_treap b)) (nodes TR))
                \<longrightarrow> rnodes s' x = rnodes s x)"
proof -
  let ?s0 = "new_node s a pl pr l r"
  let ?tl = "left_treap b" and ?tr = "right_treap b"
  have il: "treap_inv (lnodes s) ?tl TL" and ir: "treap_inv (rnodes s) ?tr TR"
    and nn: "nodes TL = nodes TR" and sz: "unat (size_field b) = count TL"
    using inv by (auto simp: bimap_inv_def)
  have wl: "wf_tree (lnodes s) TL" and wr: "wf_tree (rnodes s) TR"
    using il ir by (auto simp: treap_inv_def)
  have aTL: "a \<notin> nodes TL" using wf_tree_alloc [OF wl, of a] fresh(1) by auto
  have aTR: "a \<notin> nodes TR" using aTL nn by simp
  have ahl: "a \<noteq> head_node ?tl" using treap_inv_head [OF il] fresh(1) by auto
  have ahr: "a \<noteq> head_node ?tr" using treap_inv_head [OF ir] fresh(2) by auto
  have rej: "insert_rejected n s b l r = Inr False"
    using inv _ al ar by (rule insert_rejected_absent) (use fuel in simp)
  have l0: "lnodes ?s0 = (lnodes s)(a \<mapsto> \<lparr>random_key = pl, left = None, right = None,
              parent = None, key = Some l\<rparr>)"
    and r0: "rnodes ?s0 = (rnodes s)(a \<mapsto> \<lparr>random_key = pr, left = None, right = None,
              parent = None, key = Some r\<rparr>)"
    by (simp_all add: new_node_def)
  have il0: "treap_inv (lnodes ?s0) ?tl TL"
    using il by (rule treap_inv_frame) (use aTL ahl l0 in auto)
  have ir0: "treap_inv (rnodes ?s0) ?tr TR"
    using ir by (rule treap_inv_frame) (use aTR ahr r0 in auto)
  have kl: "the_key (lnodes ?s0) x = the_key (lnodes s) x" if "x \<in> nodes TL" for x
    using that aTL l0 by (auto simp: the_key_def)
  have kr: "the_key (rnodes ?s0) x = the_key (rnodes s) x" if "x \<in> nodes TR" for x
    using that aTR r0 by (auto simp: the_key_def)
  have al0: "\<forall>x\<in>nodes TL. \<not> equiv_keys (comparator ?tl) (the_key (lnodes ?s0) x) l"
    using al kl by simp
  have ar0: "\<forall>x\<in>nodes TR. \<not> equiv_keys (comparator ?tr) (the_key (rnodes ?s0) x) r"
    using ar kr by simp
  have cr: "count TR = count TL" using inv by (rule bimap_inv_counts)
  from treap_insert_correct [OF il0 _ _ _ _ aTL ahl fuel al0, of _ ] l0
  obtain hl TL' where
    runl: "treap_insert n (lnodes ?s0) ?tl a = Inr (hl, Some a)"
    and il': "treap_inv hl ?tl TL'" and nl': "nodes TL' = insert a (nodes TL)"
    and cl': "count TL' = Suc (count TL)"
    and fl': "\<forall>x. x \<notin> insert a (insert (head_node ?tl) (nodes TL)) \<longrightarrow> hl x = lnodes ?s0 x"
    and pl': "same_payload (lnodes ?s0) hl"
    by fastforce
  have fuelr: "count TR + 1 < n" using fuel cr by simp
  from treap_insert_correct [OF ir0 _ _ _ _ aTR ahr fuelr ar0, of _ ] r0
  obtain hr TR' where
    runr: "treap_insert n (rnodes ?s0) ?tr a = Inr (hr, Some a)"
    and ir': "treap_inv hr ?tr TR'" and nr': "nodes TR' = insert a (nodes TR)"
    and cr': "count TR' = Suc (count TR)"
    and fr': "\<forall>x. x \<notin> insert a (insert (head_node ?tr) (nodes TR)) \<longrightarrow> hr x = rnodes ?s0 x"
    and pr': "same_payload (rnodes ?s0) hr"
    by fastforce
  let ?s' = "\<lparr>lnodes = hl, rnodes = hr\<rparr> :: ('a, 'b) store"
  let ?b' = "b\<lparr>size_field := size_field b + 1\<rparr>"
  have run: "bimap_insert n (Some (a, pl, pr)) s b l r = Inr (?s', ?b', LeftIt (Some a))"
    using rej runl runr by (simp add: bimap_insert_def)
  have "unat (size_field b + 1) = count TL + 1"
    using sz room by (simp add: unat_word_ariths unat_of_nat)
  then have inv': "bimap_inv ?s' ?b' TL' TR'"
    using il' ir' nl' nr' nn cl' by (simp add: bimap_inv_def)
  have pall: "pair_at ?s' x = pair_at ?s0 x" for x
    by (rule pair_at_same_payload) (use pl' pr' in simp_all)
  have pa: "pair_at ?s' a = Some (l, r)"
    by (simp add: pall) (simp add: pair_at_def new_node_def)
  have po: "\<forall>x. x \<noteq> a \<longrightarrow> pair_at ?s' x = pair_at s x"
    by (simp add: pall) (simp add: pair_at_def new_node_def)
  have fl: "\<forall>x. x \<notin> insert a (insert (head_node ?tl) (nodes TL)) \<longrightarrow> lnodes ?s' x = lnodes s x"
    using fl' l0 by auto
  have fr: "\<forall>x. x \<notin> insert a (insert (head_node ?tr) (nodes TR)) \<longrightarrow> rnodes ?s' x = rnodes s x"
    using fr' r0 by auto
  show ?thesis using run inv' nl' pa po fl fr by blast
qed

lemma one_pair_explicit: "one_pair = Inr (one_pair_store, one_pair_bimap)"
  apply (simp add: one_pair_def fresh_bimap_def bimap_ctor_def treap_ctor_def empty_store_def
      bimap_insert_def insert_rejected_def bimap_empty_def bimap_size_def new_node_def
      treap_insert_def get_root_def load_def key_of_def deref_def numeral_3_eq_3
      set_left_def set_right_def set_parent_def set_parent_if_def modify_def
      one_pair_store_def one_pair_bimap_def)
  done

lemma finite_nodes [simp]: "finite (nodes T)"
  by (induction T) auto

lemma swo_less_nat: "strict_weak_order ((<) :: nat \<Rightarrow> nat \<Rightarrow> bool)"
  by (auto simp: strict_weak_order_def equiv_keys_def)

lemma one_pair_inv: "bimap_inv one_pair_store one_pair_bimap (Fork Tip 1 Tip) (Fork Tip 1 Tip)"
  by (simp add: bimap_inv_def treap_inv_def one_pair_store_def one_pair_bimap_def
      parent_is_def swo_less_nat)

lemma pair_at_the_key:
  "pair_at s a = Some (l, r) \<Longrightarrow> the_key (lnodes s) a = l \<and> the_key (rnodes s) a = r"
  by (auto simp: pair_at_def the_key_def split: option.splits)

lemma equiv_keys_refl: "strict_weak_order cmp \<Longrightarrow> equiv_keys cmp x x"
  by (simp add: equiv_keys_def strict_weak_order_def)

lemma leftmost_first:
  assumes "wf_tree h S" "S \<noteq> Tip" "count S < n"
  shows "leftmost n h (root_of S) = Inr (first_of S d)"
  using assms
proof (induction S arbitrary: n d)
  case Tip
  then show ?case by simp
next
  case (Fork l a r)
  obtain m where n: "n = Suc m" using Fork.prems by (cases n) auto
  from Fork.prems(1) obtain nd where
    ha: "h a = Some nd" and ln: "left nd = root_of l" by (auto split: option.splits)
  show ?case
  proof (cases l)
    case Tip
    then show ?thesis using ha ln by (simp add: n load_Some)
  next
    case (Fork ll b lr)
    have "leftmost m h (root_of l) = Inr (first_of l a)"
      using Fork.prems Fork n by (intro Fork.IH(1)) auto
    then show ?thesis using ha ln Fork by (simp add: n load_Some)
  qed
qed

lemma inorder_Nil [simp]: "(inorder T = []) = (T = Tip)"
  by (cases T) auto

lemma first_of_hd: "S \<noteq> Tip \<Longrightarrow> first_of S d = hd (inorder S)"
proof (induction S arbitrary: d)
  case Tip
  then show ?case by simp
next
  case (Fork l a r)
  show ?case
  proof (cases "l = Tip")
    case True
    then show ?thesis by simp
  next
    case False
    then show ?thesis using Fork.IH(1) [OF False, of a] by (simp add: hd_append)
  qed
qed

lemma wf_tree_cell:
  "wf_tree h (Fork l a r) \<Longrightarrow>
     \<exists>nd. h a = Some nd \<and> key nd \<noteq> None \<and> left nd = root_of l \<and> right nd = root_of r"
  by (auto split: option.splits)

lemma parent_is_Some: "parent_is h (Some a) p \<Longrightarrow> h a = Some nd \<Longrightarrow> parent nd = p"
  by (simp add: parent_is_def)

lemma deref_Some: "h a = Some n \<Longrightarrow> deref h (Some a) = Inr n"
  by (simp add: deref_def load_def)

lemma increment_next:
  assumes "wf_tree h S" "x \<in> nodes S" "parent_is h (root_of S) (Some q)" "count S + j < n"
    and exit: "\<forall>m>j. climb m h (root_of S) (Some q) = Inr (Some ma, Some d)"
    and stop: "h ma = Some mn" "right mn \<noteq> Some d"
  shows "increment n h (Some x) = Inr (Some (next_of S x d))"
  using assms
proof (induction S arbitrary: n j q d ma mn)
  case Tip
  then show ?case by simp
next
  case (Fork l a r)
  from wf_tree_cell [OF Fork.prems(1)] obtain na where
    ha: "h a = Some na" and ln: "left na = root_of l" and rn: "right na = root_of r"
    by blast
  have pa: "parent na = Some q" using Fork.prems(3) ha by (simp add: parent_is_def)
  have wl: "wf_tree h l" and wr: "wf_tree h r" and al: "a \<notin> nodes l" and ar: "a \<notin> nodes r"
    and lr: "nodes l \<inter> nodes r = {}"
    and pl: "parent_is h (root_of l) (Some a)" and pr: "parent_is h (root_of r) (Some a)"
    using Fork.prems(1) by auto
  consider (left) "x \<in> nodes l" | (root) "x = a" | (right) "x \<in> nodes r" "x \<notin> nodes l" "x \<noteq> a"
    using Fork.prems(2) by auto
  then show ?case
  proof cases
    case left
    then obtain ll b lr' where l: "l = Fork ll b lr'" by (cases l) auto
    from wf_tree_cell [OF wl [unfolded l]] obtain nb where
      hb: "h b = Some nb" and rb: "right nb = root_of lr'" by blast
    have ba: "root_of l \<noteq> right na"
      using rn l lr by (cases r) auto
    have ex: "\<forall>m>0. climb m h (root_of l) (Some a) = Inr (Some b, Some a)"
    proof (intro allI impI)
      fix m :: nat assume "0 < m"
      then obtain m' where "m = Suc m'" by (cases m) auto
      then show "climb m h (root_of l) (Some a) = Inr (Some b, Some a)"
        using ha ba l by (simp add: load_Some)
    qed
    have st: "right nb \<noteq> Some a"
      using rb al l by (cases lr') auto
    have c: "count l + 0 < n" using Fork.prems(4) by simp
    have "increment n h (Some x) = Inr (Some (next_of l x a))"
      using wl left pl c ex [unfolded l] hb st unfolding l [symmetric]
      by (intro Fork.IH(1) [where j = 0 and q = a and ma = b and mn = nb]) (simp_all add: l)
    then show ?thesis using left by simp
  next
    case root
    have nx: "next_of (Fork l a r) x d = first_of r d" using root al by simp
    show ?thesis
    proof (cases r)
      case Tip
      have "j < n" using Fork.prems(4) by simp
      then have "climb n h (Some a) (Some q) = Inr (Some ma, Some d)"
        using Fork.prems(5) by simp
      then have "increment n h (Some a) = Inr (Some d)"
        using ha pa rn Tip Fork.prems(6,7)
        by (simp add: increment_def deref_Some)
      then show ?thesis using nx root Tip by simp
    next
      case (Fork rl c rr)
      have "leftmost n h (root_of r) = Inr (first_of r d)"
        using wr by (rule leftmost_first) (use Fork Fork.prems(4) in auto)
      then have "increment n h (Some a) = Inr (Some (first_of r d))"
        using ha pa rn Fork by (simp add: increment_def deref_Some)
      then show ?thesis using nx root by simp
    qed
  next
    case right
    then have rne: "r \<noteq> Tip" by auto
    have ex: "\<forall>m>Suc j. climb m h (root_of r) (Some a) = Inr (Some ma, Some d)"
    proof (intro allI impI)
      fix m :: nat assume "Suc j < m"
      then obtain m' where m: "m = Suc m'" and m': "j < m'" by (cases m) auto
      have "climb m h (root_of r) (Some a) = climb m' h (Some a) (Some q)"
        using ha rn pa by (simp add: m load_Some)
      also have "\<dots> = Inr (Some ma, Some d)" using Fork.prems(5) m' by simp
      finally show "climb m h (root_of r) (Some a) = Inr (Some ma, Some d)" .
    qed
    have c: "count r + Suc j < n" using Fork.prems(4) by simp
    have "increment n h (Some x) = Inr (Some (next_of r x d))"
      using wr right(1) pr c ex Fork.prems(6,7) by (rule Fork.IH(2))
    then show ?thesis using right by simp
  qed
qed

lemma treap_increment:
  assumes inv: "treap_inv h t T" and x: "x \<in> nodes T" and fuel: "count T < n"
  shows "increment n h (Some x) = Inr (Some (next_of T x (head_node t)))"
proof -
  obtain l a r where T: "T = Fork l a r" using x by (cases T) auto
  have wf: "wf_tree h T" and par: "parent_is h (root_of T) (Some (head_node t))"
    and hdT: "head_node t \<notin> nodes T"
    using inv by (auto simp: treap_inv_def)
  from treap_inv_head [OF inv] obtain hn where
    hh: "h (head_node t) = Some hn" and hr: "right hn = None" by blast
  from wf_tree_cell [OF wf [unfolded T]] obtain na where
    ha: "h a = Some na" and rn: "right na = root_of r" by blast
  have ex: "\<forall>m>0. climb m h (root_of T) (Some (head_node t)) = Inr (Some a, Some (head_node t))"
  proof (intro allI impI)
    fix m :: nat assume "0 < m"
    then obtain m' where "m = Suc m'" by (cases m) auto
    then show "climb m h (root_of T) (Some (head_node t)) = Inr (Some a, Some (head_node t))"
      using hh hr T by (simp add: load_Some)
  qed
  have st: "right na \<noteq> Some (head_node t)"
    using rn hdT T by (cases r) auto
  have c: "count T + 0 < n" using fuel by simp
  show ?thesis using wf x par c ex ha st by (rule increment_next)
qed

lemma distinct_split_unique:
  assumes "distinct zs" "zs = xs @ x # ys" "zs = xs' @ x # ys'"
  shows "xs = xs' \<and> ys = ys'"
  using assms
proof (induction xs arbitrary: zs xs')
  case Nil
  then show ?case by (cases xs') auto
next
  case (Cons u us)
  then show ?case by (cases xs') auto
qed

lemma next_of_inorder:
  assumes "distinct (inorder S)" "inorder S = xs @ x # ys"
  shows "next_of S x d = (case ys of [] \<Rightarrow> d | y # _ \<Rightarrow> y)"
  using assms
proof (induction S arbitrary: xs ys d)
  case Tip
  then show ?case by simp
next
  case (Fork l a r)
  have dl: "distinct (inorder l)" and dr: "distinct (inorder r)"
    and al: "a \<notin> nodes l" and ar: "a \<notin> nodes r" and lr: "nodes l \<inter> nodes r = {}"
    using Fork.prems(1) by auto
  have "x \<in> set (inorder (Fork l a r))" unfolding Fork.prems(2) by simp
  then have xin: "x \<in> nodes (Fork l a r)" by (simp only: set_inorder)
  consider (left) "x \<in> nodes l" | (root) "x = a" | (right) "x \<in> nodes r" "x \<notin> nodes l" "x \<noteq> a"
    using xin by auto
  then show ?case
  proof cases
    case left
    then obtain xs1 ys1 where l: "inorder l = xs1 @ x # ys1"
      using split_list [of x "inorder l"] by auto
    have "inorder (Fork l a r) = xs1 @ x # (ys1 @ a # inorder r)" using l by simp
    from distinct_split_unique [OF Fork.prems(1) Fork.prems(2) this]
    have ys: "ys = ys1 @ a # inorder r" by simp
    have "next_of l x a = (case ys1 of [] \<Rightarrow> a | y # _ \<Rightarrow> y)"
      using dl l by (rule Fork.IH(1))
    then show ?thesis using left ys by (cases ys1) auto
  next
    case root
    have "inorder (Fork l a r) = inorder l @ x # inorder r" using root by simp
    from distinct_split_unique [OF Fork.prems(1) Fork.prems(2) this]
    have ys: "ys = inorder r" by simp
    show ?thesis
    proof (cases "r = Tip")
      case True
      then show ?thesis using root al ys by simp
    next
      case False
      then have "first_of r d = hd (inorder r)" by (rule first_of_hd)
      then show ?thesis using root al ys False by (cases "inorder r") auto
    qed
  next
    case right
    then obtain xs1 ys1 where r: "inorder r = xs1 @ x # ys1"
      using split_list [of x "inorder r"] by auto
    have "inorder (Fork l a r) = (inorder l @ a # xs1) @ x # ys1" using r by simp
    from distinct_split_unique [OF Fork.prems(1) Fork.prems(2) this]
    have ys: "ys = ys1" by simp
    have "next_of r x d = (case ys1 of [] \<Rightarrow> d | y # _ \<Rightarrow> y)"
      using dr r by (rule Fork.IH(2))
    then show ?thesis using right ys by simp
  qed
qed

lemma inorder_del_min: "inorder (del_min T) = tl (inorder T)"
  by (induction T) auto

lemma nodes_del_min_subset: "nodes (del_min T) \<subseteq> nodes T"
proof -
  have "set (tl (inorder T)) \<subseteq> set (inorder T)"
    by (cases "inorder T") auto
  then show ?thesis
    using inorder_del_min [of T, THEN arg_cong, of set] by simp
qed

lemma first_of_in_nodes: "T \<noteq> Tip \<Longrightarrow> first_of T d \<in> nodes T"
proof (induction T arbitrary: d)
  case Tip
  then show ?case by simp
next
  case (Fork l a r)
  show ?case
  proof (cases "l = Tip")
    case True
    then show ?thesis by simp
  next
    case False
    then show ?thesis using Fork.IH(1) [OF False, of a] by simp
  qed
qed

lemma first_of_left: "l \<noteq> Tip \<Longrightarrow> first_of l a \<in> nodes l"
  by (rule first_of_in_nodes)

lemma splice_deep:
  assumes "wf_tree h (Fork l a r)" "l \<noteq> Tip"
  shows "\<exists>nx p np na na'.
           h (first_of l a) = Some nx \<and> left nx = None \<and> parent nx = Some p
         \<and> p \<noteq> first_of l a \<and> h p = Some np \<and> p \<in> insert a (nodes l)
         \<and> (\<forall>c. right nx = Some c \<longrightarrow> c \<in> nodes l \<and> h c \<noteq> None)
         \<and> wf_tree (splice_heap h (first_of l a)) (Fork (del_min l) a r)
         \<and> h a = Some na \<and> splice_heap h (first_of l a) a = Some na'
         \<and> parent na' = parent na"
  using assms
proof (induction l arbitrary: a r)
  case Tip
  then show ?case by simp
next
  case (Fork ll b lr)
  let ?l = "Fork ll b lr"
  let ?x = "first_of ?l a"
  from wf_tree_cell [OF Fork.prems(1)] obtain na where
    ha: "h a = Some na" and ka: "key na \<noteq> None"
    and lna: "left na = root_of ?l" and rna: "right na = root_of r" by blast
  have wl: "wf_tree h ?l" and wr: "wf_tree h r" and al: "a \<notin> nodes ?l" and ar: "a \<notin> nodes r"
    and lr: "nodes ?l \<inter> nodes r = {}"
    and pl: "parent_is h (root_of ?l) (Some a)" and pr: "parent_is h (root_of r) (Some a)"
    using Fork.prems(1) by auto
  from wf_tree_cell [OF wl] obtain nb where
    hb: "h b = Some nb" and kb: "key nb \<noteq> None"
    and lnb: "left nb = root_of ll" and rnb: "right nb = root_of lr" by blast
  have pb: "parent nb = Some a" using pl hb by (simp add: parent_is_def)
  have wll: "wf_tree h ll" and wlr: "wf_tree h lr" using wl by auto
  show ?case
  proof (cases "ll = Tip")
    case True
    have x: "?x = b" using True by simp
    let ?h1 = "h(a \<mapsto> na\<lparr>left := root_of lr\<rparr>)"
    let ?h' = "put_parent ?h1 (root_of lr) (Some a)"
    have ab: "a \<noteq> b" using al by auto
    have sh: "splice_heap h b = ?h'"
      using hb pb ha rnb by (simp add: splice_heap_def)
    have alr: "a \<notin> nodes lr" using al by auto
    have h'a: "?h' a = Some (na\<lparr>left := root_of lr\<rparr>)"
      using alr by (simp add: put_parent_root_other)
    have w1: "wf_tree ?h1 lr"
      by (subst wf_tree_frame [of _ _ h]) (use alr wlr in auto)
    have wlr': "wf_tree ?h' lr" using w1 by (rule wf_tree_put_parent) simp
    have plr': "parent_is ?h' (root_of lr) (Some a)"
      by (rule parent_is_put_parent) (rule allocated_root [OF w1])
    have out: "?h' y = h y" if "y \<notin> nodes lr" "y \<noteq> a" for y
      using that by (simp add: put_parent_root_other)
    have lrr: "nodes lr \<inter> nodes r = {}" using lr by auto
    have wr': "wf_tree ?h' r"
      by (subst wf_tree_frame [of _ _ h]) (use out ar lrr wr in auto)
    have pr': "parent_is ?h' (root_of r) (Some a)"
      by (subst parent_is_cong [of _ _ h]) (use out ar lrr pr in \<open>auto dest: root_of_in_nodes\<close>)
    have wf': "wf_tree ?h' (Fork lr a r)"
      using h'a ka rna wlr' wr' plr' pr' alr ar lrr by auto
    have c: "\<forall>c. right nb = Some c \<longrightarrow> c \<in> nodes ?l \<and> h c \<noteq> None"
      using rnb allocated_root [OF wlr] by (auto simp: allocated_def dest: root_of_in_nodes)
    show ?thesis
      using hb lnb True pb ab ha c wf' h'a unfolding x sh [symmetric]
      by (simp add: sh)
  next
    case False
    have x: "?x = first_of ll b" by simp
    from Fork.IH(1) [OF wl False] obtain nx p np nb' where
      hx: "h (first_of ll b) = Some nx" and lx: "left nx = None" and px: "parent nx = Some p"
      and pne: "p \<noteq> first_of ll b" and hp: "h p = Some np" and pin: "p \<in> insert b (nodes ll)"
      and cin: "\<forall>c. right nx = Some c \<longrightarrow> c \<in> nodes ll \<and> h c \<noteq> None"
      and wf1: "wf_tree (splice_heap h (first_of ll b)) (Fork (del_min ll) b lr)"
      and hb': "splice_heap h (first_of ll b) b = Some nb'" and pb': "parent nb' = parent nb"
      using hb by auto
    let ?h' = "splice_heap h (first_of ll b)"
    have sh: "?h' = put_parent (h(p \<mapsto> np\<lparr>left := right nx\<rparr>)) (right nx) (Some p)"
      using hx px hp by (simp add: splice_heap_def)
    have pl': "p \<in> nodes ?l" using pin by auto
    have out: "?h' y = h y" if "y \<notin> nodes ?l" for y
    proof -
      have "y \<noteq> p" using that pl' by auto
      moreover have "right nx \<noteq> Some y" using cin that by auto
      ultimately show ?thesis by (simp add: sh put_parent_other)
    qed
    have h'a: "?h' a = Some na" using out [OF al] ha by simp
    have outr: "\<forall>y\<in>nodes r. ?h' y = h y"
    proof
      fix y assume "y \<in> nodes r"
      then have "y \<notin> nodes ?l" using lr by blast
      then show "?h' y = h y" by (rule out)
    qed
    have wr': "wf_tree ?h' r"
      using wr by (simp only: wf_tree_frame [OF outr])
    have outroot: "\<forall>y. root_of r = Some y \<longrightarrow> ?h' y = h y"
      using outr by (auto dest: root_of_in_nodes)
    have pr': "parent_is ?h' (root_of r) (Some a)"
      using pr by (simp only: parent_is_cong [OF outroot])
    have pl'': "parent_is ?h' (root_of (Fork (del_min ll) b lr)) (Some a)"
      using hb' pb' pb by (simp add: parent_is_def)
    have sub: "nodes (Fork (del_min ll) b lr) \<subseteq> nodes ?l"
      using nodes_del_min_subset [of ll] by auto
    have dm: "del_min ?l = Fork (del_min ll) b lr" using False by simp
    have a_dm: "a \<notin> nodes (Fork (del_min ll) b lr)" using sub al by blast
    have dm_r: "nodes (Fork (del_min ll) b lr) \<inter> nodes r = {}" using sub lr by blast
    have wf': "wf_tree ?h' (Fork (del_min ?l) a r)"
      unfolding dm
      by (subst wf_tree.simps(2))
        (use h'a ka lna rna wf1 wr' pl'' pr' a_dm ar dm_r in
          \<open>simp del: wf_tree.simps nodes.simps\<close>)
    have c: "\<forall>c. right nx = Some c \<longrightarrow> c \<in> nodes ?l \<and> h c \<noteq> None" using cin by auto
    have pin': "p \<in> insert a (nodes ?l)" using pl' by simp
    show ?thesis
      unfolding x using hx lx px pne hp pin' c wf' ha h'a by blast
  qed
qed

lemma splice_out_correct:
  assumes "wf_tree h T2" "T2 \<noteq> Tip"
  shows "\<exists>h' nx. splice_out h (first_of T2 d) (root_of T2) = Inr (h', root_of (del_min T2), nx)
           \<and> wf_tree h' (del_min T2)
           \<and> (\<forall>y. y \<notin> nodes T2 \<longrightarrow> h' y = h y)
           \<and> same_payload h h'"
proof -
  obtain l a r where T2: "T2 = Fork l a r" using assms(2) by (cases T2) auto
  from wf_tree_cell [OF assms(1) [unfolded T2]] obtain na where
    ha: "h a = Some na" and lna: "left na = root_of l" and rna: "right na = root_of r" by blast
  have wr: "wf_tree h r" using assms(1) T2 by auto
  show ?thesis
  proof (cases "l = Tip")
    case True
    let ?h' = "put_parent h (root_of r) (parent na)"
    have e: "set_parent_if h (root_of r) (parent na) = Inr ?h'"
      using allocated_root [OF wr] by (rule set_parent_if_ok)
    have run: "splice_out h a (Some a) = Inr (?h', root_of r, root_of r)"
    proof (cases "root_of r")
      case None
      then show ?thesis using ha rna by (simp add: splice_out_def load_Some)
    next
      case (Some c)
      then show ?thesis using ha rna e by (simp add: splice_out_def load_Some)
    qed
    have w: "wf_tree ?h' r" using wr by (rule wf_tree_put_parent) simp
    have f: "\<forall>y. y \<notin> nodes T2 \<longrightarrow> ?h' y = h y"
      unfolding T2 by (simp add: put_parent_root_other)
    show ?thesis
      using run w f same_payload_put_parent [of h "root_of r" "parent na"] True
      unfolding T2 by auto
  next
    case False
    let ?x = "first_of l a"
    from splice_deep [OF assms(1) [unfolded T2] False] obtain nx p np where
      hx: "h ?x = Some nx" and px: "parent nx = Some p" and pne: "p \<noteq> ?x"
      and hp: "h p = Some np" and pin: "p \<in> insert a (nodes l)"
      and cin: "\<forall>c. right nx = Some c \<longrightarrow> c \<in> nodes l \<and> h c \<noteq> None"
      and wf': "wf_tree (splice_heap h ?x) (Fork (del_min l) a r)"
      by blast
    let ?h1 = "h(p \<mapsto> np\<lparr>left := right nx\<rparr>)"
    let ?h' = "put_parent ?h1 (right nx) (Some p)"
    have sh: "splice_heap h ?x = ?h'" using hx px hp by (simp add: splice_heap_def)
    have xa: "?x \<noteq> a" using first_of_left [OF False, of a] assms(1) T2 by auto
    have e1: "set_left h p (right nx) = Inr ?h1" using hp by (rule set_left_Some)
    have h1x: "?h1 ?x = Some nx" using pne hx by simp
    have "allocated ?h1 (right nx)" using cin by (auto simp: allocated_def split: option.splits)
    then have e2: "set_parent_if ?h1 (right nx) (Some p) = Inr ?h'" by (rule set_parent_if_ok)
    have run: "\<exists>nxt. splice_out h ?x (Some a) = Inr (?h', Some a, nxt)"
    proof (cases "right nx")
      case None
      then show ?thesis using hx xa px e1 h1x by (simp add: splice_out_def load_Some)
    next
      case (Some c)
      then show ?thesis using hx xa px e1 h1x e2 by (simp add: splice_out_def load_Some)
    qed
    have f: "\<forall>y. y \<notin> nodes T2 \<longrightarrow> ?h' y = h y"
    proof (intro allI impI)
      fix y assume y: "y \<notin> nodes T2"
      then have "y \<noteq> p" using pin T2 by auto
      moreover have "right nx \<noteq> Some y" using cin y T2 by auto
      ultimately show "?h' y = h y" by (simp add: put_parent_other)
    qed
    have "same_payload h ?h1" using hp by (rule same_payload_upd_left)
    moreover have "same_payload ?h1 ?h'" by (rule same_payload_put_parent)
    ultimately have pay: "same_payload h ?h'" by (rule same_payload_trans)
    show ?thesis
      using run wf' f pay False unfolding T2 sh by auto
  qed
qed

lemma set_root_inv:
  assumes "wf_tree h M" "head_node t \<notin> nodes M" "h (head_node t) = Some hn"
    "key hn = None" "parent hn = None" "right hn = None"
    "strict_weak_order (comparator t)"
    "sorted_wrt (comparator t) (map (the_key h) (inorder M))"
  shows "\<exists>h'. set_root h t (root_of M) = Inr h' \<and> treap_inv h' t M
           \<and> (\<forall>y. y \<notin> insert (head_node t) (nodes M) \<longrightarrow> h' y = h y)
           \<and> same_payload h h'"
proof -
  let ?hd = "head_node t"
  define h1 where "h1 = h(?hd \<mapsto> hn\<lparr>left := root_of M\<rparr>)"
  define h2 where "h2 = put_parent h1 (root_of M) (Some ?hd)"
  have e1: "set_left h ?hd (root_of M) = Inr h1"
    using assms(3) by (simp add: set_left_Some h1_def)
  have w1: "wf_tree h1 M" unfolding h1_def
    by (subst wf_tree_frame [of _ _ h]) (use assms(1,2) in auto)
  have al: "allocated h1 (root_of M)" using w1 by (rule allocated_root)
  have e2: "set_parent_if h1 (root_of M) (Some ?hd) = Inr h2"
    using al by (simp add: set_parent_if_ok h2_def)
  have run: "set_root h t (root_of M) = Inr h2" using e1 e2 by (simp add: set_root_def)
  have w2: "wf_tree h2 M" unfolding h2_def using w1 by (rule wf_tree_put_parent) simp
  have hd2: "h2 ?hd = Some (hn\<lparr>left := root_of M\<rparr>)"
    using assms(2) by (simp add: h2_def put_parent_root_other h1_def)
  have p2: "parent_is h2 (root_of M) (Some ?hd)"
    unfolding h2_def using al by (rule parent_is_put_parent)
  have pay: "same_payload h h2"
  proof -
    have "same_payload h h1" unfolding h1_def using assms(3) by (rule same_payload_upd_left)
    moreover have "same_payload h1 h2" unfolding h2_def by (rule same_payload_put_parent)
    ultimately show ?thesis by (rule same_payload_trans)
  qed
  have km: "map (the_key h2) (inorder M) = map (the_key h) (inorder M)"
    by (rule map_the_key_cong [OF pay]) (use wf_tree_alloc [OF assms(1)] in auto)
  have srt: "sorted_wrt (comparator t) (map (the_key h2) (inorder M))"
    using assms(8) by (simp only: km)
  have inv: "treap_inv h2 t M"
    unfolding treap_inv_def using hd2 assms(2,4,5,6,7) p2 w2 srt by simp
  have out: "\<forall>y. y \<notin> insert ?hd (nodes M) \<longrightarrow> h2 y = h y"
    by (simp add: h2_def put_parent_root_other h1_def)
  show ?thesis using run inv out pay by blast
qed

lemma sorted_hd:
  assumes "sorted_wrt cmp (map K ys)" "x \<in> set ys" "\<forall>y\<in>set ys. \<not> cmp (K y) (K x)"
  shows "hd ys = x"
proof (cases ys)
  case Nil
  then show ?thesis using assms(2) by simp
next
  case (Cons u us)
  show ?thesis
  proof (rule ccontr)
    assume "hd ys \<noteq> x"
    then have "u \<noteq> x" using Cons by simp
    then have "x \<in> set us" using assms(2) Cons by simp
    then have "cmp (K u) (K x)" using assms(1) Cons by auto
    then show False using assms(3) Cons by simp
  qed
qed

lemma sorted_wrt_drop_mid:
  "sorted_wrt cmp (map K (xs @ ys)) \<Longrightarrow> sorted_wrt cmp (map K (xs @ tl ys))"
  by (cases ys) (auto simp: sorted_wrt_append)

lemma count_del_min: "T \<noteq> Tip \<Longrightarrow> Suc (count (del_min T)) = count T"
  by (induction T) auto

lemma treap_remove_correct:
  assumes inv: "treap_inv h t T" and x: "x \<in> nodes T" and fuel: "count T < n"
  shows "\<exists>h' T' it. treap_remove n h t (the_key h x) = Inr (h', it) \<and> treap_inv h' t T'
           \<and> nodes T' = nodes T - {x} \<and> Suc (count T') = count T
           \<and> (\<forall>y. y \<notin> insert (head_node t) (nodes T) \<longrightarrow> h' y = h y)
           \<and> same_payload h h'"
proof -
  let ?cmp = "comparator t" and ?hd = "head_node t"
  let ?k = "the_key h x"
  let ?lt = "lt_key ?cmp h ?k"
  let ?Tl = "fst (split_shape ?lt T)" and ?Tr = "snd (split_shape ?lt T)"
  have wf: "wf_tree h T" and swo: "strict_weak_order ?cmp"
    and srt: "sorted_wrt ?cmp (map (the_key h) (inorder T))"
    and hdT: "?hd \<notin> nodes T"
    using inv by (auto simp: treap_inv_def)
  from treap_inv_head [OF inv] obtain hn where
    hh: "h ?hd = Some hn" and hk: "key hn = None" and hp: "parent hn = None"
    and hr: "right hn = None" by blast
  have root: "get_root h t = Inr (root_of T)" using inv by (rule get_root_inv)
  from treap_split_correct [OF wf fuel, of ?cmp ?k] obtain h1 where
    s1: "treap_split n ?cmp h (root_of T) ?k = Inr (h1, root_of ?Tl, root_of ?Tr)"
    and w1l: "wf_tree h1 ?Tl" and w1r: "wf_tree h1 ?Tr"
    and f1: "\<forall>y. y \<notin> nodes T \<longrightarrow> h1 y = h y" and p1: "same_payload h h1"
    by blast
  have nT: "nodes ?Tl \<union> nodes ?Tr = nodes T" by (rule nodes_split_shape)
  have dT: "nodes ?Tl \<inter> nodes ?Tr = {}" using wf by (rule disjoint_split_shape)
  have cT: "count ?Tl + count ?Tr = count T" by (rule count_split_shape)
  have iT: "inorder ?Tl @ inorder ?Tr = inorder T" by (rule inorder_split_shape)
  have sp: "(\<forall>y\<in>nodes ?Tl. ?cmp (the_key h y) ?k) \<and> (\<forall>y\<in>nodes ?Tr. \<not> ?cmp (the_key h y) ?k)"
    unfolding lt_key_def
    by (rule split_shape_sorted [OF srt]) (use swo in \<open>auto simp: strict_weak_order_def\<close>)
  have xl: "x \<notin> nodes ?Tl" using sp swo_irrefl [OF swo, of ?k] by auto
  then have xr: "x \<in> nodes ?Tr" using x nT by auto
  then have Trne: "?Tr \<noteq> Tip" by auto
  have srt_r: "sorted_wrt ?cmp (map (the_key h) (inorder ?Tr))"
    using srt unfolding iT [symmetric] by (simp add: sorted_wrt_append)
  have hdx: "hd (inorder ?Tr) = x"
    using srt_r by (rule sorted_hd) (use xr sp in auto)
  have fx: "first_of ?Tr d = x" for d using first_of_hd [OF Trne, of d] hdx by simp
  have cr: "count ?Tr < n" using cT fuel by simp
  have lm: "leftmost n h1 (root_of ?Tr) = Inr x"
    using leftmost_first [OF w1r Trne cr, of x] fx by simp
  from wf_tree_alloc [OF wf x] obtain nx kx where hx: "h x = Some nx" and kx: "key nx = Some kx"
    by auto
  have kx': "?k = kx" using hx kx by (simp add: the_key_def)
  from wf_tree_alloc [OF w1r xr] obtain nx1 where h1x: "h1 x = Some nx1" by auto
  have "the_key h1 x = the_key h x" using p1 by (rule same_payload_key) (use hx in simp)
  moreover have "key nx1 \<noteq> None" using wf_tree_alloc [OF w1r xr] h1x by auto
  ultimately have k1: "key nx1 = Some ?k" using h1x by (auto simp: the_key_def)
  have keyx: "key_of h1 (Some x) = Inr ?k" using h1x k1 by (rule key_of_Some)
  have irr: "\<not> ?cmp ?k ?k" using swo by (rule swo_irrefl)
  from splice_out_correct [OF w1r Trne, of x] obtain h2 nxt where
    s2: "splice_out h1 x (root_of ?Tr) = Inr (h2, root_of (del_min ?Tr), nxt)"
    and w2: "wf_tree h2 (del_min ?Tr)"
    and f2: "\<forall>y. y \<notin> nodes ?Tr \<longrightarrow> h2 y = h1 y" and p2: "same_payload h1 h2"
    unfolding fx by blast
  let ?D = "del_min ?Tr"
  have iD: "inorder ?D = tl (inorder ?Tr)" by (rule inorder_del_min)
  have dTr: "distinct (inorder ?Tr)" using w1r by (rule wf_tree_distinct)
  have nD: "nodes ?D = nodes ?Tr - {x}"
  proof -
    obtain rest where r: "inorder ?Tr = x # rest"
      using hdx Trne by (cases "inorder ?Tr") auto
    have "set (inorder ?D) = set (inorder ?Tr) - {x}"
      using dTr unfolding iD r by auto
    then show ?thesis by (simp only: set_inorder)
  qed
  have cD: "Suc (count ?D) = count ?Tr" using Trne by (rule count_del_min)
  have w2l: "wf_tree h2 ?Tl"
    by (subst wf_tree_frame [of _ _ h1]) (use f2 dT w1l in auto)
  have dM: "nodes ?Tl \<inter> nodes ?D = {}" using dT nD by auto
  have cM: "count ?Tl + count ?D < n" using cT cD fuel by simp
  let ?M = "merge_shape (prio h2) ?Tl ?D"
  from treap_merge_correct [OF w2l w2 dM cM] obtain h3 where
    s3: "treap_merge n h2 (root_of ?Tl) (root_of ?D) = Inr (h3, root_of ?M)"
    and w3: "wf_tree h3 ?M"
    and f3: "\<forall>y. y \<notin> nodes ?Tl \<union> nodes ?D \<longrightarrow> h3 y = h2 y"
    and p3: "same_payload h2 h3" by blast
  have nM: "nodes ?M = nodes T - {x}"
    using nT nD xl by (auto simp: nodes_merge_shape)
  have iM: "inorder ?M = inorder ?Tl @ tl (inorder ?Tr)"
    by (simp add: inorder_merge_shape iD)
  have cM': "Suc (count ?M) = count T" using cT cD by (simp add: count_merge_shape)
  have hdM: "?hd \<notin> nodes ?M" using nM hdT by auto
  have h3hd: "h3 ?hd = Some hn"
  proof -
    have "h3 ?hd = h2 ?hd" using f3 hdT nT nD by auto
    also have "\<dots> = h1 ?hd" using f2 hdT nT by auto
    also have "\<dots> = h ?hd" using f1 hdT by auto
    finally show ?thesis using hh by simp
  qed
  have pay3: "same_payload h h3" using p1 p2 p3 by (blast intro: same_payload_trans)
  have "sorted_wrt ?cmp (map (the_key h) (inorder ?Tl @ inorder ?Tr))"
    using srt by (simp only: iT)
  then have "sorted_wrt ?cmp (map (the_key h) (inorder ?Tl @ tl (inorder ?Tr)))"
    by (rule sorted_wrt_drop_mid)
  moreover have "map (the_key h3) (inorder ?M) = map (the_key h) (inorder ?M)"
    by (rule map_the_key_cong [OF pay3]) (use nM wf_tree_alloc [OF wf] in auto)
  ultimately have srt3: "sorted_wrt ?cmp (map (the_key h3) (inorder ?M))"
    by (simp only: iM)
  from set_root_inv [OF w3 hdM h3hd hk hp hr swo srt3] obtain h4 where
    s4: "set_root h3 t (root_of ?M) = Inr h4" and inv4: "treap_inv h4 t ?M"
    and f4: "\<forall>y. y \<notin> insert ?hd (nodes ?M) \<longrightarrow> h4 y = h3 y"
    and p4: "same_payload h3 h4" by blast
  have run: "\<exists>it. treap_remove n h t ?k = Inr (h4, it)"
    using root s1 lm keyx irr s2 s3 s4 by (simp add: treap_remove_def)
  have out: "\<forall>y. y \<notin> insert ?hd (nodes T) \<longrightarrow> h4 y = h y"
  proof (intro allI impI)
    fix y assume y: "y \<notin> insert ?hd (nodes T)"
    have "h4 y = h3 y" using f4 y nM by auto
    also have "\<dots> = h2 y" using f3 y nT nD by auto
    also have "\<dots> = h1 y" using f2 y nT by auto
    also have "\<dots> = h y" using f1 y by auto
    finally show "h4 y = h y" .
  qed
  have pay: "same_payload h h4" using pay3 p4 by (rule same_payload_trans)
  show ?thesis using run inv4 nM cM' out pay by blast
qed

lemma sorted_wrt_related:
  assumes "sorted_wrt cmp (map K xs)" "x \<in> set xs" "y \<in> set xs" "x \<noteq> y"
  shows "cmp (K x) (K y) \<or> cmp (K y) (K x)"
  using assms
proof (induction xs)
  case Nil
  then show ?case by simp
next
  case (Cons u us)
  then show ?case by auto
qed

lemma treap_inv_inequiv:
  assumes "treap_inv h t T" "x \<in> nodes T" "y \<in> nodes T" "x \<noteq> y"
  shows "\<not> equiv_keys (comparator t) (the_key h y) (the_key h x)"
proof -
  have "sorted_wrt (comparator t) (map (the_key h) (inorder T))"
    using assms(1) by (simp add: treap_inv_def)
  from sorted_wrt_related [OF this, of x y] assms(2,3,4)
  show ?thesis by (auto simp: equiv_keys_def)
qed

lemma same_payload_the_key_all:
  assumes "same_payload h h'"
  shows "the_key h' y = the_key h y"
proof (cases "h y")
  case None
  then have "h' y = None" using same_payload_alloc [OF assms, of y] by simp
  then show ?thesis using None by (simp add: the_key_def)
next
  case (Some n)
  then show ?thesis using same_payload_key [OF assms, of y] by simp
qed

lemma erase_core:
  assumes inv: "bimap_inv s b TL TR" and x: "x \<in> nodes TL" and fuel: "count TL < n"
  shows "\<exists>hl hr il ir TL' TR'.
           treap_remove n (lnodes s) (left_treap b) (the_key (lnodes s) x) = Inr (hl, il)
         \<and> treap_remove n (rnodes s) (right_treap b) (the_key (rnodes s) x) = Inr (hr, ir)
         \<and> delete_node \<lparr>lnodes = hl, rnodes = hr\<rparr> (Some x) =
             Inr \<lparr>lnodes = hl(x := None), rnodes = hr(x := None)\<rparr>
         \<and> bimap_inv \<lparr>lnodes = hl(x := None), rnodes = hr(x := None)\<rparr>
             (b\<lparr>size_field := size_field b - 1\<rparr>) TL' TR'
         \<and> nodes TL' = nodes TL - {x}
         \<and> Suc (count TL') = count TL
         \<and> same_payload (lnodes s) hl \<and> same_payload (rnodes s) hr
         \<and> (\<forall>y. y \<notin> insert (head_node (left_treap b)) (nodes TL) \<longrightarrow> hl y = lnodes s y)
         \<and> (\<forall>y. y \<notin> insert (head_node (right_treap b)) (nodes TR) \<longrightarrow> hr y = rnodes s y)"
proof -
  let ?tl = "left_treap b" and ?tr = "right_treap b"
  have il: "treap_inv (lnodes s) ?tl TL" and ir: "treap_inv (rnodes s) ?tr TR"
    and nn: "nodes TL = nodes TR" and sz: "unat (size_field b) = count TL"
    using inv by (auto simp: bimap_inv_def)
  have xr: "x \<in> nodes TR" using x nn by simp
  have cr: "count TR < n" using fuel bimap_inv_counts [OF inv] by simp
  from treap_remove_correct [OF il x fuel] obtain hl TL' itl where
    rl: "treap_remove n (lnodes s) ?tl (the_key (lnodes s) x) = Inr (hl, itl)"
    and il': "treap_inv hl ?tl TL'" and nl': "nodes TL' = nodes TL - {x}"
    and cl': "Suc (count TL') = count TL"
    and fl': "\<forall>y. y \<notin> insert (head_node ?tl) (nodes TL) \<longrightarrow> hl y = lnodes s y"
    and pl': "same_payload (lnodes s) hl" by blast
  from treap_remove_correct [OF ir xr cr] obtain hr TR' itr where
    rr: "treap_remove n (rnodes s) ?tr (the_key (rnodes s) x) = Inr (hr, itr)"
    and ir': "treap_inv hr ?tr TR'" and nr': "nodes TR' = nodes TR - {x}"
    and cr': "Suc (count TR') = count TR"
    and fr': "\<forall>y. y \<notin> insert (head_node ?tr) (nodes TR) \<longrightarrow> hr y = rnodes s y"
    and pr': "same_payload (rnodes s) hr" by blast
  have "lnodes s x \<noteq> None" using wf_tree_alloc [of "lnodes s" TL x] il x
    by (auto simp: treap_inv_def)
  then have hlx: "hl x \<noteq> None" using same_payload_alloc [OF pl', of x] by simp
  have "rnodes s x \<noteq> None" using wf_tree_alloc [of "rnodes s" TR x] ir xr
    by (auto simp: treap_inv_def)
  then have hrx: "hr x \<noteq> None" using same_payload_alloc [OF pr', of x] by simp
  have del: "delete_node \<lparr>lnodes = hl, rnodes = hr\<rparr> (Some x) =
             Inr \<lparr>lnodes = hl(x := None), rnodes = hr(x := None)\<rparr>"
    using hlx hrx by (simp add: delete_node_def)
  have xhl: "x \<noteq> head_node ?tl" using il x by (auto simp: treap_inv_def)
  have xhr: "x \<noteq> head_node ?tr" using ir xr by (auto simp: treap_inv_def)
  have il'': "treap_inv (hl(x := None)) ?tl TL'"
    using il' by (rule treap_inv_frame) (use nl' xhl in auto)
  have ir'': "treap_inv (hr(x := None)) ?tr TR'"
    using ir' by (rule treap_inv_frame) (use nr' xhr in auto)
  have pos: "0 < count TL" using cl' by simp
  then have "size_field b \<noteq> 0" using sz by (auto simp: unat_eq_0)
  then have "unat (size_field b - 1) = unat (size_field b) - 1"
    by (simp add: unat_minus_one)
  then have sz': "unat (size_field b - 1) = count TL'" using sz cl' by simp
  have inv': "bimap_inv \<lparr>lnodes = hl(x := None), rnodes = hr(x := None)\<rparr>
             (b\<lparr>size_field := size_field b - 1\<rparr>) TL' TR'"
    using il'' ir'' nl' nr' nn sz' by (simp add: bimap_inv_def)
  show ?thesis using rl rr del inv' nl' cl' pl' pr' fl' fr' by blast
qed

lemma node_cell_key:
  assumes "treap_inv h t T" "x \<in> nodes T"
  shows "key_of h (Some x) = Inr (the_key h x)"
proof -
  from wf_tree_alloc [of h T x] assms obtain nd k where "h x = Some nd" "key nd = Some k"
    by (auto simp: treap_inv_def)
  then show ?thesis by (simp add: key_of_def deref_def load_def the_key_def)
qed

lemma erase_left_it_correct:
  assumes inv: "bimap_inv s b TL TR" and x: "x \<in> nodes TL" and fuel: "count TL < n"
  shows "\<exists>hl hr TL' TR'.
           erase_left_it n s b (LeftIt (Some x)) =
             Inr (\<lparr>lnodes = hl(x := None), rnodes = hr(x := None)\<rparr>,
                  b\<lparr>size_field := size_field b - 1\<rparr>,
                  LeftIt (Some (next_of TL x (head_node (left_treap b)))))
         \<and> bimap_inv \<lparr>lnodes = hl(x := None), rnodes = hr(x := None)\<rparr>
             (b\<lparr>size_field := size_field b - 1\<rparr>) TL' TR'
         \<and> nodes TL' = nodes TL - {x}
         \<and> Suc (count TL') = count TL
         \<and> same_payload (lnodes s) hl \<and> same_payload (rnodes s) hr
         \<and> (\<forall>y. y \<notin> insert (head_node (left_treap b)) (nodes TL) \<longrightarrow> hl y = lnodes s y)
         \<and> (\<forall>y. y \<notin> insert (head_node (right_treap b)) (nodes TR) \<longrightarrow> hr y = rnodes s y)"
proof -
  have il: "treap_inv (lnodes s) (left_treap b) TL" and ir: "treap_inv (rnodes s) (right_treap b) TR"
    and nn: "nodes TL = nodes TR"
    using inv by (auto simp: bimap_inv_def)
  have inc: "incr_left n s (LeftIt (Some x)) =
      Inr (LeftIt (Some (next_of TL x (head_node (left_treap b)))))"
    using treap_increment [OF il x fuel] by (simp add: incr_left_def)
  have dl: "deref_left s (LeftIt (Some x)) = Inr (the_key (lnodes s) x)"
    using node_cell_key [OF il x] by (simp add: deref_left_def)
  have dr: "deref_right (s\<lparr>lnodes := hl\<rparr>) (flip_left (LeftIt (Some x))) =
      Inr (the_key (rnodes s) x)" for hl
    using node_cell_key [OF ir, of x] x nn by (simp add: deref_right_def flip_left_def)
  from erase_core [OF inv x fuel] obtain hl hr il' ir' TL' TR' where
    c: "treap_remove n (lnodes s) (left_treap b) (the_key (lnodes s) x) = Inr (hl, il')"
      "treap_remove n (rnodes s) (right_treap b) (the_key (rnodes s) x) = Inr (hr, ir')"
      "delete_node \<lparr>lnodes = hl, rnodes = hr\<rparr> (Some x) =
             Inr \<lparr>lnodes = hl(x := None), rnodes = hr(x := None)\<rparr>"
    and rest: "bimap_inv \<lparr>lnodes = hl(x := None), rnodes = hr(x := None)\<rparr>
             (b\<lparr>size_field := size_field b - 1\<rparr>) TL' TR'"
      "nodes TL' = nodes TL - {x}" "Suc (count TL') = count TL"
      "same_payload (lnodes s) hl" "same_payload (rnodes s) hr"
      "\<forall>y. y \<notin> insert (head_node (left_treap b)) (nodes TL) \<longrightarrow> hl y = lnodes s y"
      "\<forall>y. y \<notin> insert (head_node (right_treap b)) (nodes TR) \<longrightarrow> hr y = rnodes s y"
    by (elim exE conjE) (rule that)
  have "erase_left_it n s b (LeftIt (Some x)) =
             Inr (\<lparr>lnodes = hl(x := None), rnodes = hr(x := None)\<rparr>,
                  b\<lparr>size_field := size_field b - 1\<rparr>,
                  LeftIt (Some (next_of TL x (head_node (left_treap b)))))"
    using inc dl dr c by (simp add: erase_left_it_def)
  then show ?thesis using rest by blast
qed

lemma erase_right_it_correct:
  assumes inv: "bimap_inv s b TL TR" and x: "x \<in> nodes TL" and fuel: "count TL < n"
  shows "\<exists>hl hr TL' TR'.
           erase_right_it n s b (RightIt (Some x)) =
             Inr (\<lparr>lnodes = hl(x := None), rnodes = hr(x := None)\<rparr>,
                  b\<lparr>size_field := size_field b - 1\<rparr>,
                  RightIt (Some (next_of TR x (head_node (right_treap b)))))
         \<and> bimap_inv \<lparr>lnodes = hl(x := None), rnodes = hr(x := None)\<rparr>
             (b\<lparr>size_field := size_field b - 1\<rparr>) TL' TR'
         \<and> nodes TL' = nodes TL - {x}
         \<and> Suc (count TL') = count TL
         \<and> same_payload (lnodes s) hl \<and> same_payload (rnodes s) hr
         \<and> (\<forall>y. y \<notin> insert (head_node (left_treap b)) (nodes TL) \<longrightarrow> hl y = lnodes s y)
         \<and> (\<forall>y. y \<notin> insert (head_node (right_treap b)) (nodes TR) \<longrightarrow> hr y = rnodes s y)"
proof -
  have il: "treap_inv (lnodes s) (left_treap b) TL" and ir: "treap_inv (rnodes s) (right_treap b) TR"
    and nn: "nodes TL = nodes TR"
    using inv by (auto simp: bimap_inv_def)
  have xr: "x \<in> nodes TR" using x nn by simp
  have cr: "count TR < n" using fuel bimap_inv_counts [OF inv] by simp
  have inc: "incr_right n s (RightIt (Some x)) =
      Inr (RightIt (Some (next_of TR x (head_node (right_treap b)))))"
    using treap_increment [OF ir xr cr] by (simp add: incr_right_def)
  have dr: "deref_right s (RightIt (Some x)) = Inr (the_key (rnodes s) x)"
    using node_cell_key [OF ir xr] by (simp add: deref_right_def)
  have dl: "deref_left (s\<lparr>rnodes := hr\<rparr>) (flip_right (RightIt (Some x))) =
      Inr (the_key (lnodes s) x)" for hr
    using node_cell_key [OF il x] by (simp add: deref_left_def flip_right_def)
  from erase_core [OF inv x fuel] obtain hl hr il' ir' TL' TR' where
    c: "treap_remove n (lnodes s) (left_treap b) (the_key (lnodes s) x) = Inr (hl, il')"
      "treap_remove n (rnodes s) (right_treap b) (the_key (rnodes s) x) = Inr (hr, ir')"
      "delete_node \<lparr>lnodes = hl, rnodes = hr\<rparr> (Some x) =
             Inr \<lparr>lnodes = hl(x := None), rnodes = hr(x := None)\<rparr>"
    and rest: "bimap_inv \<lparr>lnodes = hl(x := None), rnodes = hr(x := None)\<rparr>
             (b\<lparr>size_field := size_field b - 1\<rparr>) TL' TR'"
      "nodes TL' = nodes TL - {x}" "Suc (count TL') = count TL"
      "same_payload (lnodes s) hl" "same_payload (rnodes s) hr"
      "\<forall>y. y \<notin> insert (head_node (left_treap b)) (nodes TL) \<longrightarrow> hl y = lnodes s y"
      "\<forall>y. y \<notin> insert (head_node (right_treap b)) (nodes TR) \<longrightarrow> hr y = rnodes s y"
    by (elim exE conjE) (rule that)
  have "erase_right_it n s b (RightIt (Some x)) =
             Inr (\<lparr>lnodes = hl(x := None), rnodes = hr(x := None)\<rparr>,
                  b\<lparr>size_field := size_field b - 1\<rparr>,
                  RightIt (Some (next_of TR x (head_node (right_treap b)))))"
    using inc dl dr c by (simp add: erase_right_it_def)
  then show ?thesis using rest by blast
qed

lemma erase_post_absent_left:
  assumes inv: "bimap_inv s b TL TR" and x: "x \<in> nodes TL"
    and pl: "same_payload (lnodes s) hl" and n': "nodes TL' = nodes TL - {x}"
  shows "\<forall>y\<in>nodes TL'. \<not> equiv_keys (comparator (left_treap b))
           (the_key (hl(x := None)) y) (the_key (lnodes s) x)"
proof
  fix y assume y: "y \<in> nodes TL'"
  then have yT: "y \<in> nodes TL" and yx: "x \<noteq> y" using n' by auto
  have il: "treap_inv (lnodes s) (left_treap b) TL" using inv by (simp add: bimap_inv_def)
  have "the_key (hl(x := None)) y = the_key hl y" using yx by (simp add: the_key_def)
  also have "\<dots> = the_key (lnodes s) y" using pl by (rule same_payload_the_key_all)
  finally show "\<not> equiv_keys (comparator (left_treap b))
           (the_key (hl(x := None)) y) (the_key (lnodes s) x)"
    using treap_inv_inequiv [OF il x yT yx] by simp
qed

lemma erase_post_absent_right:
  assumes inv: "bimap_inv s b TL TR" and x: "x \<in> nodes TR"
    and pr: "same_payload (rnodes s) hr" and n': "nodes TR' = nodes TR - {x}"
  shows "\<forall>y\<in>nodes TR'. \<not> equiv_keys (comparator (right_treap b))
           (the_key (hr(x := None)) y) (the_key (rnodes s) x)"
proof
  fix y assume y: "y \<in> nodes TR'"
  then have yT: "y \<in> nodes TR" and yx: "x \<noteq> y" using n' by auto
  have ir: "treap_inv (rnodes s) (right_treap b) TR" using inv by (simp add: bimap_inv_def)
  have "the_key (hr(x := None)) y = the_key hr y" using yx by (simp add: the_key_def)
  also have "\<dots> = the_key (rnodes s) y" using pr by (rule same_payload_the_key_all)
  finally show "\<not> equiv_keys (comparator (right_treap b))
           (the_key (hr(x := None)) y) (the_key (rnodes s) x)"
    using treap_inv_inequiv [OF ir x yT yx] by simp
qed

lemma size_after_erase:
  assumes "bimap_inv s b TL TR" "x \<in> nodes TL"
  shows "unat (size_field b - 1) + 1 = unat (size_field b)"
proof -
  have "unat (size_field b) = count TL" using assms(1) by (simp add: bimap_inv_def)
  moreover have "0 < count TL" using assms(2) by (cases TL) auto
  ultimately have "size_field b \<noteq> 0" by (auto simp: unat_eq_0)
  then have "unat (size_field b - 1) = unat (size_field b) - 1"
    by (simp add: unat_minus_one)
  moreover have "0 < unat (size_field b)" using \<open>size_field b \<noteq> 0\<close> by (simp add: unat_gt_0)
  ultimately show ?thesis by simp
qed

lemma erase_left_key_correct:
  assumes inv: "bimap_inv s b TL TR" and x: "x \<in> nodes TL"
    and p: "pair_at s x = Some (k, r)" and fuel: "count TL < n"
  shows "\<exists>s' b'. erase_left n s b k = Inr (s', b', True)
           \<and> find_left n s' b' k = Inr (end_left b')
           \<and> find_right n s' b' r = Inr (end_right b')
           \<and> bimap_size b' = bimap_size b - 1
           \<and> unat (bimap_size b') + 1 = unat (bimap_size b)"
proof -
  let ?b' = "b\<lparr>size_field := size_field b - 1\<rparr>"
  have kl: "the_key (lnodes s) x = k" and kr: "the_key (rnodes s) x = r"
    using pair_at_the_key [OF p] by simp_all
  have swo: "strict_weak_order (comparator (left_treap b))"
    using inv by (simp add: bimap_inv_def treap_inv_def)
  have nn: "nodes TL = nodes TR" using inv by (simp add: bimap_inv_def)
  have "equiv_keys (comparator (left_treap b)) (the_key (lnodes s) x) k"
    using kl equiv_keys_refl [OF swo] by simp
  then have fnd: "find_left n s b k = Inr (LeftIt (Some x))"
    using inv fuel x by (intro find_left_present)
  have ne: "LeftIt (Some x) \<noteq> end_left b" using inv x by (rule node_not_head_left)
  from erase_left_it_correct [OF inv x fuel] obtain hl hr TL' TR' where
    run: "erase_left_it n s b (LeftIt (Some x)) =
             Inr (\<lparr>lnodes = hl(x := None), rnodes = hr(x := None)\<rparr>, ?b',
                  LeftIt (Some (next_of TL x (head_node (left_treap b)))))"
    and inv': "bimap_inv \<lparr>lnodes = hl(x := None), rnodes = hr(x := None)\<rparr> ?b' TL' TR'"
    and n': "nodes TL' = nodes TL - {x}" and c': "Suc (count TL') = count TL"
    and pl: "same_payload (lnodes s) hl" and pr: "same_payload (rnodes s) hr"
    by (elim exE conjE) (rule that)
  let ?s' = "\<lparr>lnodes = hl(x := None), rnodes = hr(x := None)\<rparr> :: ('a, 'b) store"
  have e: "erase_left n s b k = Inr (?s', ?b', True)"
    using fnd ne run by (simp add: erase_left_def)
  have nr': "nodes TR' = nodes TR - {x}"
    using inv' n' nn by (simp add: bimap_inv_def)
  have f': "count TL' < n" using c' fuel by simp
  have al: "\<forall>y\<in>nodes TL'. \<not> equiv_keys (comparator (left_treap ?b'))
      (the_key (lnodes ?s') y) k"
    using erase_post_absent_left [OF inv x pl n'] kl by simp
  have ar: "\<forall>y\<in>nodes TR'. \<not> equiv_keys (comparator (right_treap ?b'))
      (the_key (rnodes ?s') y) r"
    using erase_post_absent_right [OF inv _ pr nr'] x nn kr by simp
  have fl: "find_left n ?s' ?b' k = Inr (end_left ?b')"
    using inv' f' al by (rule find_left_absent)
  have fr: "find_right n ?s' ?b' r = Inr (end_right ?b')"
    using inv' f' ar by (rule find_right_absent)
  show ?thesis
    using e fl fr size_after_erase [OF inv x] by (auto simp: bimap_size_def)
qed

lemma erase_right_key_correct:
  assumes inv: "bimap_inv s b TL TR" and x: "x \<in> nodes TL"
    and p: "pair_at s x = Some (k, r)" and fuel: "count TL < n"
  shows "\<exists>s' b'. erase_right n s b r = Inr (s', b', True)
           \<and> find_right n s' b' r = Inr (end_right b')
           \<and> find_left n s' b' k = Inr (end_left b')
           \<and> bimap_size b' = bimap_size b - 1
           \<and> unat (bimap_size b') + 1 = unat (bimap_size b)"
proof -
  let ?b' = "b\<lparr>size_field := size_field b - 1\<rparr>"
  have kl: "the_key (lnodes s) x = k" and kr: "the_key (rnodes s) x = r"
    using pair_at_the_key [OF p] by simp_all
  have swo: "strict_weak_order (comparator (right_treap b))"
    using inv by (simp add: bimap_inv_def treap_inv_def)
  have nn: "nodes TL = nodes TR" using inv by (simp add: bimap_inv_def)
  have xr: "x \<in> nodes TR" using x nn by simp
  have "equiv_keys (comparator (right_treap b)) (the_key (rnodes s) x) r"
    using kr equiv_keys_refl [OF swo] by simp
  then have fnd: "find_right n s b r = Inr (RightIt (Some x))"
    using inv fuel xr by (intro find_right_present)
  have ne: "RightIt (Some x) \<noteq> end_right b" using inv xr by (rule node_not_head_right)
  from erase_right_it_correct [OF inv x fuel] obtain hl hr TL' TR' where
    run: "erase_right_it n s b (RightIt (Some x)) =
             Inr (\<lparr>lnodes = hl(x := None), rnodes = hr(x := None)\<rparr>, ?b',
                  RightIt (Some (next_of TR x (head_node (right_treap b)))))"
    and inv': "bimap_inv \<lparr>lnodes = hl(x := None), rnodes = hr(x := None)\<rparr> ?b' TL' TR'"
    and n': "nodes TL' = nodes TL - {x}" and c': "Suc (count TL') = count TL"
    and pl: "same_payload (lnodes s) hl" and pr: "same_payload (rnodes s) hr"
    by (elim exE conjE) (rule that)
  let ?s' = "\<lparr>lnodes = hl(x := None), rnodes = hr(x := None)\<rparr> :: ('a, 'b) store"
  have e: "erase_right n s b r = Inr (?s', ?b', True)"
    using fnd ne run by (simp add: erase_right_def)
  have nr': "nodes TR' = nodes TR - {x}"
    using inv' n' nn by (simp add: bimap_inv_def)
  have f': "count TL' < n" using c' fuel by simp
  have al: "\<forall>y\<in>nodes TL'. \<not> equiv_keys (comparator (left_treap ?b'))
      (the_key (lnodes ?s') y) k"
    using erase_post_absent_left [OF inv x pl n'] kl by simp
  have ar: "\<forall>y\<in>nodes TR'. \<not> equiv_keys (comparator (right_treap ?b'))
      (the_key (rnodes ?s') y) r"
    using erase_post_absent_right [OF inv xr pr nr'] kr by simp
  have fl: "find_left n ?s' ?b' k = Inr (end_left ?b')"
    using inv' f' al by (rule find_left_absent)
  have fr: "find_right n ?s' ?b' r = Inr (end_right ?b')"
    using inv' f' ar by (rule find_right_absent)
  show ?thesis
    using e fl fr size_after_erase [OF inv x] by (auto simp: bimap_size_def)
qed

lemma pair_at_node:
  assumes "bimap_inv s b TL TR" "y \<in> nodes TL"
  shows "pair_at s y = Some (the_key (lnodes s) y, the_key (rnodes s) y)"
proof -
  have wl: "wf_tree (lnodes s) TL" and wr: "wf_tree (rnodes s) TR" and nn: "nodes TL = nodes TR"
    using assms(1) by (auto simp: bimap_inv_def treap_inv_def)
  from wf_tree_alloc [OF wl assms(2)] obtain nl kl where
    l: "lnodes s y = Some nl" "key nl = Some kl" by auto
  from wf_tree_alloc [OF wr, of y] assms(2) nn obtain nr kr where
    r: "rnodes s y = Some nr" "key nr = Some kr" by auto
  show ?thesis using l r by (simp add: pair_at_def the_key_def)
qed

lemma at_left_present:
  assumes inv: "bimap_inv s b TL TR" and fuel: "count TL < n" and x: "x \<in> nodes TL"
    and p: "pair_at s x = Some (l, r)"
  shows "at_left n s b l = Inr r"
proof -
  have k: "the_key (lnodes s) x = l" "the_key (rnodes s) x = r"
    using pair_at_the_key [OF p] by simp_all
  have swo: "strict_weak_order (comparator (left_treap b))"
    using inv by (simp add: bimap_inv_def treap_inv_def)
  have ir: "treap_inv (rnodes s) (right_treap b) TR" and nn: "nodes TL = nodes TR"
    using inv by (auto simp: bimap_inv_def)
  have "equiv_keys (comparator (left_treap b)) (the_key (lnodes s) x) l"
    using k equiv_keys_refl [OF swo] by simp
  then have f: "find_left n s b l = Inr (LeftIt (Some x))"
    using inv fuel x by (intro find_left_present)
  have ne: "LeftIt (Some x) \<noteq> end_left b" using inv x by (rule node_not_head_left)
  have "deref_right s (flip_left (LeftIt (Some x))) = Inr r"
    using node_cell_key [OF ir, of x] x nn k by (simp add: deref_right_def flip_left_def)
  then show ?thesis using f ne by (simp add: at_left_def)
qed

lemma at_right_present:
  assumes inv: "bimap_inv s b TL TR" and fuel: "count TL < n" and x: "x \<in> nodes TL"
    and p: "pair_at s x = Some (l, r)"
  shows "at_right n s b r = Inr l"
proof -
  have k: "the_key (lnodes s) x = l" "the_key (rnodes s) x = r"
    using pair_at_the_key [OF p] by simp_all
  have swo: "strict_weak_order (comparator (right_treap b))"
    using inv by (simp add: bimap_inv_def treap_inv_def)
  have il: "treap_inv (lnodes s) (left_treap b) TL" and nn: "nodes TL = nodes TR"
    using inv by (auto simp: bimap_inv_def)
  have xr: "x \<in> nodes TR" using x nn by simp
  have "equiv_keys (comparator (right_treap b)) (the_key (rnodes s) x) r"
    using k equiv_keys_refl [OF swo] by simp
  then have f: "find_right n s b r = Inr (RightIt (Some x))"
    using inv fuel xr by (intro find_right_present)
  have ne: "RightIt (Some x) \<noteq> end_right b" using inv xr by (rule node_not_head_right)
  have "deref_left s (flip_right (RightIt (Some x))) = Inr l"
    using node_cell_key [OF il x] k by (simp add: deref_left_def flip_right_def)
  then show ?thesis using f ne by (simp add: at_right_def)
qed

lemma at_left_absent:
  assumes "bimap_inv s b TL TR" "count TL < n"
    "\<forall>x\<in>nodes TL. \<not> equiv_keys (comparator (left_treap b)) (the_key (lnodes s) x) l"
  shows "at_left n s b l = Inl OutOfRange"
  using find_left_absent [OF assms] by (simp add: at_left_def)

lemma at_right_absent:
  assumes "bimap_inv s b TL TR" "count TL < n"
    "\<forall>x\<in>nodes TR. \<not> equiv_keys (comparator (right_treap b)) (the_key (rnodes s) x) r"
  shows "at_right n s b r = Inl OutOfRange"
  using find_right_absent [OF assms] by (simp add: at_right_def)

lemma evict_insert_core:
  assumes inv: "bimap_inv s b TL TR" and x: "x \<in> nodes TL" and fuel: "count TL < n"
    and fresh: "(lnodes s a = None \<and> rnodes s a = None) \<or> a = x"
    and al: "\<forall>y\<in>nodes TL. y \<noteq> x \<longrightarrow>
               \<not> equiv_keys (comparator (left_treap b)) (the_key (lnodes s) y) l"
    and ar: "\<forall>y\<in>nodes TR. y \<noteq> x \<longrightarrow>
               \<not> equiv_keys (comparator (right_treap b)) (the_key (rnodes s) y) r"
    and inv1: "bimap_inv \<lparr>lnodes = hl(x := None), rnodes = hr(x := None)\<rparr>
                 (b\<lparr>size_field := size_field b - 1\<rparr>) TL1 TR1"
    and n1: "nodes TL1 = nodes TL - {x}" and c1: "Suc (count TL1) = count TL"
    and pl: "same_payload (lnodes s) hl" and pr: "same_payload (rnodes s) hr"
  shows "\<exists>s2 b2. bimap_insert n (Some (a, pl', pr'))
                    \<lparr>lnodes = hl(x := None), rnodes = hr(x := None)\<rparr>
                    (b\<lparr>size_field := size_field b - 1\<rparr>) l r = Inr (s2, b2, LeftIt (Some a))
           \<and> pair_at s2 a = Some (l, r)
           \<and> at_left n s2 b2 l = Inr r
           \<and> at_right n s2 b2 r = Inr l
           \<and> (\<not> equiv_keys (comparator (left_treap b)) l (the_key (lnodes s) x)
                \<longrightarrow> at_left n s2 b2 (the_key (lnodes s) x) = Inl OutOfRange)
           \<and> (\<not> equiv_keys (comparator (right_treap b)) r (the_key (rnodes s) x)
                \<longrightarrow> at_right n s2 b2 (the_key (rnodes s) x) = Inl OutOfRange)
           \<and> bimap_size b2 = bimap_size b"
proof -
  let ?s1 = "\<lparr>lnodes = hl(x := None), rnodes = hr(x := None)\<rparr> :: ('a, 'b) store"
  let ?b1 = "b\<lparr>size_field := size_field b - 1\<rparr>"
  let ?b2 = "?b1\<lparr>size_field := size_field ?b1 + 1\<rparr>"
  have nn: "nodes TL = nodes TR" and sz: "unat (size_field b) = count TL"
    using inv by (auto simp: bimap_inv_def)
  have nn1: "nodes TL1 = nodes TR1" using inv1 by (simp add: bimap_inv_def)
  have kl1: "the_key (lnodes ?s1) y = the_key (lnodes s) y" if "y \<noteq> x" for y
    using that same_payload_the_key_all [OF pl, of y] by (simp add: the_key_def)
  have kr1: "the_key (rnodes ?s1) y = the_key (rnodes s) y" if "y \<noteq> x" for y
    using that same_payload_the_key_all [OF pr, of y] by (simp add: the_key_def)
  have f1: "lnodes ?s1 a = None" "rnodes ?s1 a = None"
    using fresh same_payload_alloc [OF pl, of a] same_payload_alloc [OF pr, of a] by auto
  have al1: "\<forall>y\<in>nodes TL1. \<not> equiv_keys (comparator (left_treap ?b1)) (the_key (lnodes ?s1) y) l"
    using al n1 kl1 by auto
  have ar1: "\<forall>y\<in>nodes TR1. \<not> equiv_keys (comparator (right_treap ?b1)) (the_key (rnodes ?s1) y) r"
    using ar n1 nn nn1 kr1 by auto
  have fuel1: "count TL1 + 1 < n" using c1 fuel by simp
  have "unat (size_field b) < 2 ^ 64" using unsigned_less [of "size_field b"] by simp
  then have room: "count TL1 + 1 < 2 ^ 64" using sz c1 by simp
  from bimap_insert_stores [OF inv1 f1 al1 ar1 fuel1 room, of pl' pr']
  obtain s2 TL2 TR2 where
    run: "bimap_insert n (Some (a, pl', pr')) ?s1 ?b1 l r = Inr (s2, ?b2, LeftIt (Some a))"
    and inv2: "bimap_inv s2 ?b2 TL2 TR2"
    and n2: "nodes TL2 = insert a (nodes TL1)"
    and pa: "pair_at s2 a = Some (l, r)"
    and po: "\<forall>y. y \<noteq> a \<longrightarrow> pair_at s2 y = pair_at ?s1 y"
    by (elim exE conjE) (rule that)
  have wl1: "wf_tree (lnodes ?s1) TL1" and wl2: "wf_tree (lnodes s2) TL2"
    using inv1 inv2 by (auto simp: bimap_inv_def treap_inv_def)
  have aTL1: "a \<notin> nodes TL1" using wf_tree_alloc [OF wl1, of a] f1 by auto
  have c2: "count TL2 = count TL"
    using n2 aTL1 c1 by (simp add: count_card [OF wl1] count_card [OF wl2])
  have fuel2: "count TL2 < n" using c2 fuel by simp
  have a2: "a \<in> nodes TL2" using n2 by simp
  have atl: "at_left n s2 ?b2 l = Inr r" using inv2 fuel2 a2 pa by (rule at_left_present)
  have atr: "at_right n s2 ?b2 r = Inr l" using inv2 fuel2 a2 pa by (rule at_right_present)
  have nn2: "nodes TL2 = nodes TR2" using inv2 by (simp add: bimap_inv_def)
  have keys2: "the_key (lnodes s2) y = the_key (lnodes s) y \<and>
               the_key (rnodes s2) y = the_key (rnodes s) y"
    if y: "y \<in> nodes TL1" for y
  proof -
    have ya: "y \<noteq> a" using y aTL1 by auto
    have yx: "y \<noteq> x" using y n1 by auto
    have y2: "y \<in> nodes TL2" using y n2 by simp
    have "pair_at s2 y = pair_at ?s1 y" using po ya by simp
    then have "(the_key (lnodes s2) y, the_key (rnodes s2) y) =
        (the_key (lnodes ?s1) y, the_key (rnodes ?s1) y)"
      using pair_at_node [OF inv2 y2] pair_at_node [OF inv1 y] by simp
    then show ?thesis using kl1 [OF yx] kr1 [OF yx] by simp
  qed
  have ka: "the_key (lnodes s2) a = l" "the_key (rnodes s2) a = r"
    using pair_at_the_key [OF pa] by simp_all
  have il: "treap_inv (lnodes s) (left_treap b) TL" and ir: "treap_inv (rnodes s) (right_treap b) TR"
    using inv by (auto simp: bimap_inv_def)
  have gl: "at_left n s2 ?b2 (the_key (lnodes s) x) = Inl OutOfRange"
    if ne: "\<not> equiv_keys (comparator (left_treap b)) l (the_key (lnodes s) x)"
  proof (rule at_left_absent [OF inv2 fuel2], rule ballI)
    fix y assume "y \<in> nodes TL2"
    then consider "y = a" | "y \<in> nodes TL1" using n2 by auto
    then show "\<not> equiv_keys (comparator (left_treap ?b2)) (the_key (lnodes s2) y)
        (the_key (lnodes s) x)"
    proof cases
      case 1
      then show ?thesis using ka ne by simp
    next
      case 2
      then have "y \<in> nodes TL" "x \<noteq> y" using n1 by auto
      from treap_inv_inequiv [OF il x this] keys2 [OF 2] show ?thesis by simp
    qed
  qed
  have gr: "at_right n s2 ?b2 (the_key (rnodes s) x) = Inl OutOfRange"
    if ne: "\<not> equiv_keys (comparator (right_treap b)) r (the_key (rnodes s) x)"
  proof (rule at_right_absent [OF inv2 fuel2], rule ballI)
    fix y assume "y \<in> nodes TR2"
    then consider "y = a" | "y \<in> nodes TL1" using n2 nn2 by auto
    then show "\<not> equiv_keys (comparator (right_treap ?b2)) (the_key (rnodes s2) y)
        (the_key (rnodes s) x)"
    proof cases
      case 1
      then show ?thesis using ka ne by simp
    next
      case 2
      then have "y \<in> nodes TR" "x \<noteq> y" using n1 nn by auto
      from treap_inv_inequiv [OF ir _ this] x nn keys2 [OF 2] show ?thesis by simp
    qed
  qed
  have "bimap_size ?b2 = bimap_size b" by (simp add: bimap_size_def)
  then show ?thesis using run pa atl atr gl gr by blast
qed

lemma pair_at_deref:
  assumes "pair_at s a = Some (l, r)"
  shows "deref_left s (LeftIt (Some a)) = Inr l" "deref_right s (RightIt (Some a)) = Inr r"
  using assms
  by (auto simp: pair_at_def deref_left_def deref_right_def key_of_def deref_def load_def
      split: option.splits)

lemma equiv_keys_commute: "equiv_keys cmp x y = equiv_keys cmp y x"
  by (auto simp: equiv_keys_def)

lemma at_left_or_default_evicts:
  assumes inv: "bimap_inv s b TL TR" and x: "x \<in> nodes TL"
    and p: "pair_at s x = Some (other_l, d)"
    and absent: "\<forall>y\<in>nodes TL. \<not> equiv_keys (comparator (left_treap b)) (the_key (lnodes s) y) k"
    and fresh: "(lnodes s a = None \<and> rnodes s a = None) \<or> a = x"
    and fuel: "count TL < n"
  shows "\<exists>s' b'. at_left_or_default n (Some (a, pl, pr)) d s b k = Inr (s', b', d)
           \<and> pair_at s' a = Some (k, d)
           \<and> at_left n s' b' k = Inr d
           \<and> at_right n s' b' d = Inr k
           \<and> at_left n s' b' other_l = Inl OutOfRange
           \<and> bimap_size b' = bimap_size b"
proof -
  have kx: "the_key (lnodes s) x = other_l" "the_key (rnodes s) x = d"
    using pair_at_the_key [OF p] by simp_all
  have nn: "nodes TL = nodes TR" and ir: "treap_inv (rnodes s) (right_treap b) TR"
    using inv by (auto simp: bimap_inv_def)
  have xr: "x \<in> nodes TR" using x nn by simp
  have swo: "strict_weak_order (comparator (right_treap b))"
    using ir by (simp add: treap_inv_def)
  have fl: "find_left n s b k = Inr (end_left b)" using inv fuel absent by (rule find_left_absent)
  have "equiv_keys (comparator (right_treap b)) (the_key (rnodes s) x) d"
    using kx equiv_keys_refl [OF swo] by simp
  then have fr: "find_right n s b d = Inr (RightIt (Some x))"
    using inv fuel xr by (intro find_right_present)
  have ne: "RightIt (Some x) \<noteq> end_right b" using inv xr by (rule node_not_head_right)
  from erase_right_it_correct [OF inv x fuel] obtain hl hr TL1 TR1 where
    er: "erase_right_it n s b (RightIt (Some x)) =
             Inr (\<lparr>lnodes = hl(x := None), rnodes = hr(x := None)\<rparr>,
                  b\<lparr>size_field := size_field b - 1\<rparr>,
                  RightIt (Some (next_of TR x (head_node (right_treap b)))))"
    and inv1: "bimap_inv \<lparr>lnodes = hl(x := None), rnodes = hr(x := None)\<rparr>
             (b\<lparr>size_field := size_field b - 1\<rparr>) TL1 TR1"
    and n1: "nodes TL1 = nodes TL - {x}" and c1: "Suc (count TL1) = count TL"
    and pl1: "same_payload (lnodes s) hl" and pr1: "same_payload (rnodes s) hr"
    by (elim exE conjE) (rule that)
  have al: "\<forall>y\<in>nodes TL. y \<noteq> x \<longrightarrow>
               \<not> equiv_keys (comparator (left_treap b)) (the_key (lnodes s) y) k"
    using absent by simp
  have ar: "\<forall>y\<in>nodes TR. y \<noteq> x \<longrightarrow>
               \<not> equiv_keys (comparator (right_treap b)) (the_key (rnodes s) y) d"
    using treap_inv_inequiv [OF ir xr] kx by auto
  from evict_insert_core [OF inv x fuel fresh al ar inv1 n1 c1 pl1 pr1, of pl pr]
  obtain s2 b2 where
    ins: "bimap_insert n (Some (a, pl, pr)) \<lparr>lnodes = hl(x := None), rnodes = hr(x := None)\<rparr>
            (b\<lparr>size_field := size_field b - 1\<rparr>) k d = Inr (s2, b2, LeftIt (Some a))"
    and pa: "pair_at s2 a = Some (k, d)"
    and atl: "at_left n s2 b2 k = Inr d" and atr: "at_right n s2 b2 d = Inr k"
    and gone: "\<not> equiv_keys (comparator (left_treap b)) k (the_key (lnodes s) x)
                \<longrightarrow> at_left n s2 b2 (the_key (lnodes s) x) = Inl OutOfRange"
    and sz: "bimap_size b2 = bimap_size b"
    by (elim exE conjE) (rule that)
  have "\<not> equiv_keys (comparator (left_treap b)) k (the_key (lnodes s) x)"
    using absent x by (simp add: equiv_keys_commute)
  then have g: "at_left n s2 b2 other_l = Inl OutOfRange" using gone kx by simp
  have dr: "deref_right s2 (flip_left (LeftIt (Some a))) = Inr d"
    using pair_at_deref(2) [OF pa] by (simp add: flip_left_def)
  have "at_left_or_default n (Some (a, pl, pr)) d s b k = Inr (s2, b2, d)"
    using fl fr ne er ins dr by (simp add: at_left_or_default_def)
  then show ?thesis using pa atl atr g sz by blast
qed

lemma at_right_or_default_evicts:
  assumes inv: "bimap_inv s b TL TR" and x: "x \<in> nodes TL"
    and p: "pair_at s x = Some (d, other_r)"
    and absent: "\<forall>y\<in>nodes TR. \<not> equiv_keys (comparator (right_treap b)) (the_key (rnodes s) y) k"
    and fresh: "(lnodes s a = None \<and> rnodes s a = None) \<or> a = x"
    and fuel: "count TL < n"
  shows "\<exists>s' b'. at_right_or_default n (Some (a, pl, pr)) d s b k = Inr (s', b', d)
           \<and> pair_at s' a = Some (d, k)
           \<and> at_right n s' b' k = Inr d
           \<and> at_left n s' b' d = Inr k
           \<and> at_right n s' b' other_r = Inl OutOfRange
           \<and> bimap_size b' = bimap_size b"
proof -
  have kx: "the_key (lnodes s) x = d" "the_key (rnodes s) x = other_r"
    using pair_at_the_key [OF p] by simp_all
  have nn: "nodes TL = nodes TR" and il: "treap_inv (lnodes s) (left_treap b) TL"
    using inv by (auto simp: bimap_inv_def)
  have xr: "x \<in> nodes TR" using x nn by simp
  have swo: "strict_weak_order (comparator (left_treap b))"
    using il by (simp add: treap_inv_def)
  have fr: "find_right n s b k = Inr (end_right b)"
    using inv fuel absent by (rule find_right_absent)
  have "equiv_keys (comparator (left_treap b)) (the_key (lnodes s) x) d"
    using kx equiv_keys_refl [OF swo] by simp
  then have fl: "find_left n s b d = Inr (LeftIt (Some x))"
    using inv fuel x by (intro find_left_present)
  have ne: "LeftIt (Some x) \<noteq> end_left b" using inv x by (rule node_not_head_left)
  from erase_left_it_correct [OF inv x fuel] obtain hl hr TL1 TR1 where
    er: "erase_left_it n s b (LeftIt (Some x)) =
             Inr (\<lparr>lnodes = hl(x := None), rnodes = hr(x := None)\<rparr>,
                  b\<lparr>size_field := size_field b - 1\<rparr>,
                  LeftIt (Some (next_of TL x (head_node (left_treap b)))))"
    and inv1: "bimap_inv \<lparr>lnodes = hl(x := None), rnodes = hr(x := None)\<rparr>
             (b\<lparr>size_field := size_field b - 1\<rparr>) TL1 TR1"
    and n1: "nodes TL1 = nodes TL - {x}" and c1: "Suc (count TL1) = count TL"
    and pl1: "same_payload (lnodes s) hl" and pr1: "same_payload (rnodes s) hr"
    by (elim exE conjE) (rule that)
  have al: "\<forall>y\<in>nodes TL. y \<noteq> x \<longrightarrow>
               \<not> equiv_keys (comparator (left_treap b)) (the_key (lnodes s) y) d"
    using treap_inv_inequiv [OF il x] kx by auto
  have ar: "\<forall>y\<in>nodes TR. y \<noteq> x \<longrightarrow>
               \<not> equiv_keys (comparator (right_treap b)) (the_key (rnodes s) y) k"
    using absent by simp
  from evict_insert_core [OF inv x fuel fresh al ar inv1 n1 c1 pl1 pr1, of pl pr]
  obtain s2 b2 where
    ins: "bimap_insert n (Some (a, pl, pr)) \<lparr>lnodes = hl(x := None), rnodes = hr(x := None)\<rparr>
            (b\<lparr>size_field := size_field b - 1\<rparr>) d k = Inr (s2, b2, LeftIt (Some a))"
    and pa: "pair_at s2 a = Some (d, k)"
    and atl: "at_left n s2 b2 d = Inr k" and atr: "at_right n s2 b2 k = Inr d"
    and gone: "\<not> equiv_keys (comparator (right_treap b)) k (the_key (rnodes s) x)
                \<longrightarrow> at_right n s2 b2 (the_key (rnodes s) x) = Inl OutOfRange"
    and sz: "bimap_size b2 = bimap_size b"
    by (elim exE conjE) (rule that)
  have "\<not> equiv_keys (comparator (right_treap b)) k (the_key (rnodes s) x)"
    using absent xr by (simp add: equiv_keys_commute)
  then have g: "at_right n s2 b2 other_r = Inl OutOfRange" using gone kx by simp
  have dl: "deref_left s2 (LeftIt (Some a)) = Inr d"
    using pair_at_deref(1) [OF pa] .
  have "at_right_or_default n (Some (a, pl, pr)) d s b k = Inr (s2, b2, d)"
    using fl fr ne er ins dl by (simp add: at_right_or_default_def)
  then show ?thesis using pa atl atr g sz by blast
qed

lemma default_pairs_inv:
  "bimap_inv default_pairs_store default_pairs_bimap
     (Fork Tip 1 (Fork Tip 2 Tip)) (Fork (Fork Tip 2 Tip) 1 Tip)"
  by (simp add: bimap_inv_def treap_inv_def default_pairs_store_def default_pairs_bimap_def
      parent_is_def swo_less_nat the_key_def)

lemma default_pairs_explicit: "default_pairs = Inr (default_pairs_store, default_pairs_bimap)"
  by (simp add: default_pairs_def fresh_bimap_def bimap_ctor_def treap_ctor_def empty_store_def
      bimap_insert_def insert_rejected_def bimap_empty_def bimap_size_def new_node_def
      treap_insert_def get_root_def load_def key_of_def deref_def numeral_3_eq_3
      set_left_def set_right_def set_parent_def set_parent_if_def modify_def
      find_left_def find_right_def treap_exist_def end_left_def end_right_def treap_end_def
      default_pairs_store_def default_pairs_bimap_def fun_upd_twist)

lemma it_at_Nil: "it_at [] (head_node (left_treap b)) = end_left b"
  by (simp add: it_at_def end_left_def treap_end_def)

lemma it_at_Cons: "it_at (x # xs) d = LeftIt (Some x)"
  by (simp add: it_at_def)

lemma incr_left_suffix:
  assumes inv: "bimap_inv s b TL TR" and io: "inorder TL = pre @ x # rest"
    and fuel: "count TL < n"
  shows "incr_left n s (LeftIt (Some x)) = Inr (it_at rest (head_node (left_treap b)))"
proof -
  have il: "treap_inv (lnodes s) (left_treap b) TL" using inv by (simp add: bimap_inv_def)
  then have wf: "wf_tree (lnodes s) TL" by (simp add: treap_inv_def)
  have "x \<in> set (inorder TL)" unfolding io by simp
  then have x: "x \<in> nodes TL" by (simp only: set_inorder)
  have "next_of TL x (head_node (left_treap b)) =
      (case rest of [] \<Rightarrow> head_node (left_treap b) | y # _ \<Rightarrow> y)"
    using wf_tree_distinct [OF wf] io by (rule next_of_inorder)
  then show ?thesis
    using treap_increment [OF il x fuel] by (simp add: incr_left_def it_at_def)
qed

lemma begin_left_correct:
  assumes inv: "bimap_inv s b TL TR" and fuel: "count TL < n"
  shows "begin_left n s b = Inr (it_at (inorder TL) (head_node (left_treap b)))"
proof -
  have il: "treap_inv (lnodes s) (left_treap b) TL" using inv by (simp add: bimap_inv_def)
  then have wf: "wf_tree (lnodes s) TL" by (simp add: treap_inv_def)
  show ?thesis
  proof (cases "TL = Tip")
    case True
    then show ?thesis
      using get_root_inv [OF il]
      by (simp add: begin_left_def treap_begin_def it_at_def treap_end_def)
  next
    case False
    then have "leftmost n (lnodes s) (root_of TL) = Inr (hd (inorder TL))"
      using leftmost_first [OF wf False fuel] first_of_hd [OF False] by simp
    moreover have "it_at (inorder TL) (head_node (left_treap b)) = LeftIt (Some (hd (inorder TL)))"
      using False by (cases "inorder TL") (auto simp: it_at_def)
    ultimately show ?thesis
      using get_root_inv [OF il] False
      by (simp add: begin_left_def treap_begin_def)
  qed
qed

lemma node_derefs:
  assumes inv: "bimap_inv s b TL TR" and x: "x \<in> nodes TL"
  shows "deref_left s (LeftIt (Some x)) = Inr (fst (pair_of s x))"
    "deref_right s (flip_left (LeftIt (Some x))) = Inr (snd (pair_of s x))"
  using pair_at_deref [OF pair_at_node [OF inv x]]
  by (simp_all add: pair_of_def flip_left_def)

lemma walk_pairs_correct:
  assumes inv: "bimap_inv s b TL TR" and io: "inorder TL = pre @ xs"
    and c: "length xs < c" and fuel: "count TL < n"
  shows "walk_pairs c n s b (it_at xs (head_node (left_treap b))) = Inr (map (pair_of s) xs)"
  using io c
proof (induction xs arbitrary: pre c)
  case Nil
  then obtain c' where "c = Suc c'" by (cases c) auto
  then show ?case by (simp add: it_at_Nil)
next
  case (Cons x xs)
  obtain c' where c': "c = Suc c'" using Cons.prems(2) by (cases c) auto
  have "x \<in> set (inorder TL)" unfolding Cons.prems(1) by simp
  then have x: "x \<in> nodes TL" by (simp only: set_inorder)
  have ne: "LeftIt (Some x) \<noteq> end_left b" using inv x by (rule node_not_head_left)
  have inc: "incr_left n s (LeftIt (Some x)) = Inr (it_at xs (head_node (left_treap b)))"
    using inv Cons.prems(1) fuel by (rule incr_left_suffix)
  have "inorder TL = (pre @ [x]) @ xs" using Cons.prems(1) by simp
  then have IH: "walk_pairs c' n s b (it_at xs (head_node (left_treap b))) =
      Inr (map (pair_of s) xs)"
    by (rule Cons.IH) (use Cons.prems(2) c' in simp)
  show ?case
    using ne node_derefs [OF inv x] inc IH by (simp add: c' it_at_Cons)
qed

lemma traverse_pairs_correct:
  assumes inv: "bimap_inv s b TL TR" and fuel: "count TL < n"
  shows "traverse_pairs n s b = Inr (map (pair_of s) (inorder TL))"
proof -
  have e: "inorder TL = [] @ inorder TL" by simp
  have "walk_pairs n n s b (it_at (inorder TL) (head_node (left_treap b))) =
      Inr (map (pair_of s) (inorder TL))"
    by (rule walk_pairs_correct [OF inv e _ fuel]) (use fuel in simp)
  then show ?thesis using begin_left_correct [OF inv fuel] by (simp add: traverse_pairs_def)
qed

lemma equal_loop_correct:
  assumes invA: "bimap_inv s A TLA TRA" and invB: "bimap_inv s B TLB TRB"
    and ioA: "inorder TLA = pa @ xs" and ioB: "inorder TLB = pb @ ys"
    and len: "length xs = length ys"
    and c: "length xs < c" and fuelA: "count TLA < n" and fuelB: "count TLB < n"
  shows "equal_loop c n s A B (it_at xs (head_node (left_treap A)))
           (it_at ys (head_node (left_treap B)))
         = Inr (map (pair_of s) xs = map (pair_of s) ys)"
  using ioA ioB len c
proof (induction xs arbitrary: ys pa pb c)
  case Nil
  then obtain c' where "c = Suc c'" by (cases c) auto
  then show ?case using Nil.prems(3) by (simp add: it_at_Nil)
next
  case (Cons x xs)
  obtain c' where c': "c = Suc c'" using Cons.prems(4) by (cases c) auto
  obtain y ys' where ys: "ys = y # ys'" using Cons.prems(3) by (cases ys) auto
  have "x \<in> set (inorder TLA)" unfolding Cons.prems(1) by simp
  then have x: "x \<in> nodes TLA" by (simp only: set_inorder)
  have "y \<in> set (inorder TLB)" unfolding Cons.prems(2) ys by simp
  then have y: "y \<in> nodes TLB" by (simp only: set_inorder)
  have nex: "LeftIt (Some x) \<noteq> end_left A" using invA x by (rule node_not_head_left)
  have ney: "LeftIt (Some y) \<noteq> end_left B" using invB y by (rule node_not_head_left)
  have incx: "incr_left n s (LeftIt (Some x)) = Inr (it_at xs (head_node (left_treap A)))"
    using invA Cons.prems(1) fuelA by (rule incr_left_suffix)
  have incy: "incr_left n s (LeftIt (Some y)) = Inr (it_at ys' (head_node (left_treap B)))"
    using invB Cons.prems(2) [unfolded ys] fuelB by (rule incr_left_suffix)
  have a: "inorder TLA = (pa @ [x]) @ xs" using Cons.prems(1) by simp
  have b: "inorder TLB = (pb @ [y]) @ ys'" using Cons.prems(2) ys by simp
  have IH: "equal_loop c' n s A B (it_at xs (head_node (left_treap A)))
           (it_at ys' (head_node (left_treap B)))
         = Inr (map (pair_of s) xs = map (pair_of s) ys')"
    using a b by (rule Cons.IH) (use Cons.prems(3,4) c' ys in simp_all)
  show ?case
    using nex ney node_derefs [OF invA x] node_derefs [OF invB y] incx incy IH
    by (auto simp: c' ys it_at_Cons prod_eq_iff)
qed

lemma bimap_equal_correct:
  assumes invA: "bimap_inv s A TLA TRA" and invB: "bimap_inv s B TLB TRB"
    and fuelA: "count TLA < n" and fuelB: "count TLB < n"
  shows "bimap_equal n s A B =
    Inr (bimap_size A = bimap_size B
         \<and> map (pair_of s) (inorder TLA) = map (pair_of s) (inorder TLB))"
proof (cases "bimap_size A = bimap_size B")
  case False
  then show ?thesis by (simp add: bimap_equal_def)
next
  case True
  have "unat (size_field A) = count TLA" "unat (size_field B) = count TLB"
    using invA invB by (simp_all add: bimap_inv_def)
  then have len: "length (inorder TLA) = length (inorder TLB)"
    using True by (simp add: bimap_size_def)
  have ea: "inorder TLA = [] @ inorder TLA" and eb: "inorder TLB = [] @ inorder TLB"
    by simp_all
  have "equal_loop n n s A B (it_at (inorder TLA) (head_node (left_treap A)))
           (it_at (inorder TLB) (head_node (left_treap B)))
         = Inr (map (pair_of s) (inorder TLA) = map (pair_of s) (inorder TLB))"
    by (rule equal_loop_correct [OF invA invB ea eb len _ fuelA fuelB]) (use fuelA in simp)
  then show ?thesis
    using True begin_left_correct [OF invA fuelA] begin_left_correct [OF invB fuelB]
    by (simp add: bimap_equal_def)
qed

lemma insert_all_correct:
  assumes inv: "bimap_inv s b TL TR"
    and da: "distinct (map addr_of ops)"
    and fresh: "\<forall>op\<in>set ops. lnodes s (addr_of op) = None \<and> rnodes s (addr_of op) = None"
    and new: "\<forall>op\<in>set ops. \<forall>y\<in>nodes TL.
                keys_apart (comparator (left_treap b)) (comparator (right_treap b))
                  (pair_of s y) (snd op)"
    and pw: "sorted_wrt (keys_apart (comparator (left_treap b)) (comparator (right_treap b)))
               (map snd ops)"
    and fuel: "count TL + length ops < n"
    and room: "count TL + length ops < 2 ^ 64"
  shows "\<exists>s' b' TL' TR'. insert_all n s b ops = Inr (s', b')
           \<and> bimap_inv s' b' TL' TR'
           \<and> left_treap b' = left_treap b \<and> right_treap b' = right_treap b
           \<and> nodes TL' = nodes TL \<union> set (map addr_of ops)
           \<and> count TL' = count TL + length ops
           \<and> (\<forall>op\<in>set ops. pair_at s' (addr_of op) = Some (snd op))
           \<and> (\<forall>y. y \<notin> set (map addr_of ops) \<longrightarrow> pair_at s' y = pair_at s y)
           \<and> (\<forall>y. y \<notin> set (map addr_of ops) \<union> insert (head_node (left_treap b)) (nodes TL)
                  \<longrightarrow> lnodes s' y = lnodes s y)
           \<and> (\<forall>y. y \<notin> set (map addr_of ops) \<union> insert (head_node (right_treap b)) (nodes TR)
                  \<longrightarrow> rnodes s' y = rnodes s y)"
  using assms
proof (induction ops arbitrary: s b TL TR)
  case Nil
  then show ?case by auto
next
  case (Cons op ops)
  let ?cl = "comparator (left_treap b)" and ?cr = "comparator (right_treap b)"
  obtain a pl pr l r where op: "op = ((a, pl, pr), l, r)" by (cases op) auto
  have aop: "addr_of op = a" by (simp add: op addr_of_def)
  note inv = Cons.prems(1)
  have nn: "nodes TL = nodes TR" using inv by (simp add: bimap_inv_def)
  have fa: "lnodes s a = None" "rnodes s a = None"
    using Cons.prems(3) aop by auto
  have al: "\<forall>y\<in>nodes TL. \<not> equiv_keys ?cl (the_key (lnodes s) y) l"
    using Cons.prems(4) op by (simp add: keys_apart_def pair_of_def)
  have ar: "\<forall>y\<in>nodes TR. \<not> equiv_keys ?cr (the_key (rnodes s) y) r"
    using Cons.prems(4) op nn by (simp add: keys_apart_def pair_of_def)
  have f1: "count TL + 1 < n" using Cons.prems(6) by simp
  have r1: "count TL + 1 < 2 ^ 64" using Cons.prems(7) by simp
  let ?b1 = "b\<lparr>size_field := size_field b + 1\<rparr>"
  from bimap_insert_stores [OF inv fa al ar f1 r1, of pl pr]
  obtain s1 TL1 TR1 where
    run1: "bimap_insert n (Some (a, pl, pr)) s b l r = Inr (s1, ?b1, LeftIt (Some a))"
    and inv1: "bimap_inv s1 ?b1 TL1 TR1"
    and n1: "nodes TL1 = insert a (nodes TL)"
    and pa: "pair_at s1 a = Some (l, r)"
    and po: "\<forall>y. y \<noteq> a \<longrightarrow> pair_at s1 y = pair_at s y"
    and fl: "\<forall>y. y \<notin> insert a (insert (head_node (left_treap b)) (nodes TL))
                \<longrightarrow> lnodes s1 y = lnodes s y"
    and fr: "\<forall>y. y \<notin> insert a (insert (head_node (right_treap b)) (nodes TR))
                \<longrightarrow> rnodes s1 y = rnodes s y"
    by (elim exE conjE) (rule that)
  have il: "treap_inv (lnodes s) (left_treap b) TL" and ir: "treap_inv (rnodes s) (right_treap b) TR"
    using inv by (auto simp: bimap_inv_def)
  have wl: "wf_tree (lnodes s) TL" and wr: "wf_tree (rnodes s) TR"
    using il ir by (auto simp: treap_inv_def)
  have wl1: "wf_tree (lnodes s1) TL1" using inv1 by (simp add: bimap_inv_def treap_inv_def)
  have nn1: "nodes TL1 = nodes TR1" using inv1 by (simp add: bimap_inv_def)
  have aTL: "a \<notin> nodes TL" using wf_tree_alloc [OF wl, of a] fa by auto
  have c1: "count TL1 = Suc (count TL)"
    using n1 aTL by (simp add: count_card [OF wl] count_card [OF wl1])
  have hl: "lnodes s (head_node (left_treap b)) \<noteq> None"
    using treap_inv_head [OF il] by auto
  have hr: "rnodes s (head_node (right_treap b)) \<noteq> None"
    using treap_inv_head [OF ir] by auto
  have da': "distinct (map addr_of ops)" and a_rest: "a \<notin> set (map addr_of ops)"
    using Cons.prems(2) aop by simp_all
  have fresh': "\<forall>op'\<in>set ops. lnodes s1 (addr_of op') = None \<and> rnodes s1 (addr_of op') = None"
  proof
    fix op' assume oin: "op' \<in> set ops"
    let ?a' = "addr_of op'"
    have f: "lnodes s ?a' = None" "rnodes s ?a' = None" using Cons.prems(3) oin by simp_all
    have "?a' \<noteq> a" using a_rest oin by auto
    moreover have "?a' \<noteq> head_node (left_treap b)" "?a' \<noteq> head_node (right_treap b)"
      using f hl hr by auto
    moreover have "?a' \<notin> nodes TL" using wf_tree_alloc [OF wl, of ?a'] f by auto
    moreover have "?a' \<notin> nodes TR" using wf_tree_alloc [OF wr, of ?a'] f by auto
    ultimately show "lnodes s1 ?a' = None \<and> rnodes s1 ?a' = None"
      using fl fr f by simp
  qed
  have po1: "pair_of s1 y = pair_of s y" if y: "y \<in> nodes TL" for y
  proof -
    have "y \<noteq> a" using y aTL by auto
    then have "pair_at s1 y = pair_at s y" using po by simp
    moreover have "y \<in> nodes TL1" using y n1 by simp
    ultimately show ?thesis
      using pair_at_node [OF inv1, of y] pair_at_node [OF inv y]
      by (simp add: pair_of_def)
  qed
  have pa1: "pair_of s1 a = (l, r)"
    using pair_at_the_key [OF pa] by (simp add: pair_of_def)
  have new': "\<forall>op'\<in>set ops. \<forall>y\<in>nodes TL1.
                keys_apart (comparator (left_treap ?b1)) (comparator (right_treap ?b1))
                  (pair_of s1 y) (snd op')"
  proof (intro ballI)
    fix op' y assume oin: "op' \<in> set ops" and y: "y \<in> nodes TL1"
    show "keys_apart (comparator (left_treap ?b1)) (comparator (right_treap ?b1))
                  (pair_of s1 y) (snd op')"
    proof (cases "y = a")
      case True
      then show ?thesis using Cons.prems(5) oin op pa1 by auto
    next
      case False
      then have "y \<in> nodes TL" using y n1 by simp
      then show ?thesis using Cons.prems(4) oin po1 by simp
    qed
  qed
  have pw': "sorted_wrt (keys_apart (comparator (left_treap ?b1)) (comparator (right_treap ?b1)))
               (map snd ops)"
    using Cons.prems(5) by simp
  have fuel': "count TL1 + length ops < n" using Cons.prems(6) c1 by simp
  have room': "count TL1 + length ops < 2 ^ 64" using Cons.prems(7) c1 by simp
  from Cons.IH [OF inv1 da' fresh' new' pw' fuel' room']
  obtain s' b' TL' TR' where
    run: "insert_all n s1 ?b1 ops = Inr (s', b')"
    and inv': "bimap_inv s' b' TL' TR'"
    and tl: "left_treap b' = left_treap ?b1" and tr: "right_treap b' = right_treap ?b1"
    and n': "nodes TL' = nodes TL1 \<union> set (map addr_of ops)"
    and c': "count TL' = count TL1 + length ops"
    and ps: "\<forall>op\<in>set ops. pair_at s' (addr_of op) = Some (snd op)"
    and po': "\<forall>y. y \<notin> set (map addr_of ops) \<longrightarrow> pair_at s' y = pair_at s1 y"
    and fl': "\<forall>y. y \<notin> set (map addr_of ops) \<union> insert (head_node (left_treap ?b1)) (nodes TL1)
                  \<longrightarrow> lnodes s' y = lnodes s1 y"
    and fr': "\<forall>y. y \<notin> set (map addr_of ops) \<union> insert (head_node (right_treap ?b1)) (nodes TR1)
                  \<longrightarrow> rnodes s' y = rnodes s1 y"
    by (elim exE conjE) (rule that)
  have runall: "insert_all n s b (op # ops) = Inr (s', b')"
    using run1 run by (simp add: op)
  have g1: "left_treap b' = left_treap b \<and> right_treap b' = right_treap b" using tl tr by simp
  have g2: "nodes TL' = nodes TL \<union> set (map addr_of (op # ops))"
    using n' n1 aop by auto
  have g3: "count TL' = count TL + length (op # ops)" using c' c1 by simp
  have g4: "\<forall>q\<in>set (op # ops). pair_at s' (addr_of q) = Some (snd q)"
    using ps po' pa a_rest aop op by auto
  have g5: "\<forall>y. y \<notin> set (map addr_of (op # ops)) \<longrightarrow> pair_at s' y = pair_at s y"
    using po' po aop by auto
  have g6: "\<forall>y. y \<notin> set (map addr_of (op # ops)) \<union> insert (head_node (left_treap b)) (nodes TL)
                  \<longrightarrow> lnodes s' y = lnodes s y"
  proof (intro allI impI)
    fix y assume y: "y \<notin> set (map addr_of (op # ops)) \<union> insert (head_node (left_treap b)) (nodes TL)"
    then have "lnodes s' y = lnodes s1 y" using fl' n1 aop by auto
    also have "\<dots> = lnodes s y" using fl y aop by auto
    finally show "lnodes s' y = lnodes s y" .
  qed
  have g7: "\<forall>y. y \<notin> set (map addr_of (op # ops)) \<union> insert (head_node (right_treap b)) (nodes TR)
                  \<longrightarrow> rnodes s' y = rnodes s y"
  proof (intro allI impI)
    fix y assume y: "y \<notin> set (map addr_of (op # ops)) \<union> insert (head_node (right_treap b)) (nodes TR)"
    then have "rnodes s' y = rnodes s1 y" using fr' n1 nn nn1 aop by auto
    also have "\<dots> = rnodes s y" using fr y aop by auto
    finally show "rnodes s' y = rnodes s y" .
  qed
  show ?case
    using runall inv' g1 g2 g3 g4 g5 g6 g7 by blast
qed

lemma bimap_inv_frame:
  assumes "bimap_inv s b TL TR"
    "\<forall>y\<in>insert (head_node (left_treap b)) (nodes TL). lnodes s' y = lnodes s y"
    "\<forall>y\<in>insert (head_node (right_treap b)) (nodes TR). rnodes s' y = rnodes s y"
  shows "bimap_inv s' b TL TR"
  using assms treap_inv_frame [of "lnodes s" "left_treap b" TL "lnodes s'"]
    treap_inv_frame [of "rnodes s" "right_treap b" TR "rnodes s'"]
  by (simp add: bimap_inv_def)

lemma frame_disjoint:
  assumes "\<And>y. y \<notin> AY \<Longrightarrow> y \<noteq> hb \<Longrightarrow> f y = g y"
    and "AX \<inter> AY = {}" and "ha \<notin> AY" and "hb \<notin> AX" and "ha \<noteq> hb"
  shows "\<forall>y\<in>insert ha AX. f y = g y"
  using assms by blast

lemma sorted_wrt_pairwise:
  "distinct ps \<Longrightarrow> \<forall>p\<in>set ps. \<forall>q\<in>set ps. p \<noteq> q \<longrightarrow> P p q \<Longrightarrow> sorted_wrt P ps"
  by (induction ps) auto

lemma sorted_wrt_unique:
  assumes irr: "\<forall>x. \<not> R x x" and tr: "\<forall>x y z. R x y \<longrightarrow> R y z \<longrightarrow> R x z"
    and "sorted_wrt R xs" "sorted_wrt R ys" "set xs = set ys"
  shows "xs = ys"
  using assms(3,4,5)
proof (induction xs arbitrary: ys)
  case Nil
  then show ?case by simp
next
  case (Cons x xs)
  then obtain y ys' where ys: "ys = y # ys'" by (cases ys) auto
  have xmin: "\<forall>z\<in>set xs. R x z" and sx: "sorted_wrt R xs" using Cons.prems(1) by auto
  have ymin: "\<forall>z\<in>set ys'. R y z" and sy: "sorted_wrt R ys'" using Cons.prems(2) ys by auto
  have xy: "x = y"
  proof (rule ccontr)
    assume ne: "x \<noteq> y"
    have "x \<in> set ys'" using Cons.prems(3) ys ne by auto
    then have 1: "R y x" using ymin by simp
    have "y \<in> set xs" using Cons.prems(3) ys ne by auto
    then have 2: "R x y" using xmin by simp
    from 1 2 tr have "R x x" by blast
    then show False using irr by simp
  qed
  have "x \<notin> set xs" using xmin irr by auto
  moreover have "y \<notin> set ys'" using ymin irr by auto
  ultimately have "set xs = set ys'" using Cons.prems(3) ys xy by auto
  then have "xs = ys'" using sx sy by (intro Cons.IH)
  then show ?case using xy ys by simp
qed

lemma sorted_pairs:
  assumes "bimap_inv s b TL TR"
  shows "sorted_wrt (\<lambda>p q. comparator (left_treap b) (fst p) (fst q))
           (map (pair_of s) (inorder TL))"
proof -
  have "sorted_wrt (comparator (left_treap b)) (map (the_key (lnodes s)) (inorder TL))"
    using assms by (simp add: bimap_inv_def treap_inv_def)
  then show ?thesis by (simp add: sorted_wrt_map pair_of_def)
qed

lemma built_pairs_set:
  assumes inv: "bimap_inv s b TL TR"
    and n: "nodes TL = set (map addr_of ops)"
    and ps: "\<forall>op\<in>set ops. pair_at s (addr_of op) = Some (snd op)"
  shows "set (map (pair_of s) (inorder TL)) = set (map snd ops)"
proof -
  have "pair_of s (addr_of op) = snd op" if "op \<in> set ops" for op
    using ps that pair_at_the_key [of s "addr_of op" "fst (snd op)" "snd (snd op)"]
    by (simp add: pair_of_def)
  then have "map (pair_of s \<circ> addr_of) ops = map snd ops" by simp
  then have "pair_of s ` addr_of ` set ops = snd ` set ops"
    by (metis image_comp list.set_map)
  then show ?thesis using n by simp
qed

lemma same_pairs_equal:
  assumes eA: "bimap_inv s A Tip Tip" and eB: "bimap_inv s B Tip Tip"
    and hl: "head_node (left_treap A) \<noteq> head_node (left_treap B)"
    and hr: "head_node (right_treap A) \<noteq> head_node (right_treap B)"
    and cl: "comparator (left_treap A) = comparator (left_treap B)"
    and cr: "comparator (right_treap A) = comparator (right_treap B)"
    and same: "set (map snd xs) = set (map snd ys)"
    and dx: "distinct (map snd xs)" and dy: "distinct (map snd ys)"
    and apart: "\<forall>p\<in>set (map snd xs). \<forall>q\<in>set (map snd xs). p \<noteq> q \<longrightarrow>
        keys_apart (comparator (left_treap A)) (comparator (right_treap A)) p q"
    and da: "distinct (map addr_of (xs @ ys))"
    and fresh: "\<forall>op\<in>set (xs @ ys). lnodes s (addr_of op) = None \<and> rnodes s (addr_of op) = None"
    and fuel: "length xs < n" and room: "length xs < 2 ^ 64"
  shows "\<exists>sA A' sB B'. insert_all n s A xs = Inr (sA, A')
           \<and> insert_all n sA B ys = Inr (sB, B')
           \<and> bimap_equal n sB A' B' = Inr True
           \<and> traverse_pairs n sB A' = traverse_pairs n sB B'
           \<and> unat (bimap_size A') = length xs"
proof -
  let ?cl = "comparator (left_treap A)" and ?cr = "comparator (right_treap A)"
  have len: "length ys = length xs"
    using distinct_card [OF dx] distinct_card [OF dy] same by simp
  have pwx: "sorted_wrt (keys_apart ?cl ?cr) (map snd xs)"
    using dx apart by (rule sorted_wrt_pairwise)
  have pwy: "sorted_wrt (keys_apart (comparator (left_treap B)) (comparator (right_treap B)))
      (map snd ys)"
  proof (rule sorted_wrt_pairwise [OF dy])
    have "set (map snd ys) = set (map snd xs)" using same by simp
    then show "\<forall>p\<in>set (map snd ys). \<forall>q\<in>set (map snd ys). p \<noteq> q \<longrightarrow>
      keys_apart (comparator (left_treap B)) (comparator (right_treap B)) p q"
      using apart cl cr by (simp only:)
  qed
  have dax: "distinct (map addr_of xs)" and day: "distinct (map addr_of ys)"
    and dxy: "set (map addr_of xs) \<inter> set (map addr_of ys) = {}"
    using da by auto
  have fx: "\<forall>op\<in>set xs. lnodes s (addr_of op) = None \<and> rnodes s (addr_of op) = None"
    and fy: "\<forall>op\<in>set ys. lnodes s (addr_of op) = None \<and> rnodes s (addr_of op) = None"
    using fresh by auto
  have hA: "lnodes s (head_node (left_treap A)) \<noteq> None" "rnodes s (head_node (right_treap A)) \<noteq> None"
    and hB: "lnodes s (head_node (left_treap B)) \<noteq> None" "rnodes s (head_node (right_treap B)) \<noteq> None"
    using eA eB by (auto simp: bimap_inv_def treap_inv_def split: option.splits)
  from insert_all_correct [OF eA dax fx _ pwx, of n]
  obtain sA A' TLA TRA where
    runA: "insert_all n s A xs = Inr (sA, A')"
    and invA: "bimap_inv sA A' TLA TRA"
    and tA: "left_treap A' = left_treap A" "right_treap A' = right_treap A"
    and nA: "nodes TLA = nodes Tip \<union> set (map addr_of xs)"
    and cA: "count TLA = count Tip + length xs"
    and pA: "\<forall>op\<in>set xs. pair_at sA (addr_of op) = Some (snd op)"
    and flA: "\<forall>y. y \<notin> set (map addr_of xs) \<union> insert (head_node (left_treap A)) (nodes Tip)
                  \<longrightarrow> lnodes sA y = lnodes s y"
    and frA: "\<forall>y. y \<notin> set (map addr_of xs) \<union> insert (head_node (right_treap A)) (nodes Tip)
                  \<longrightarrow> rnodes sA y = rnodes s y"
    using fuel room by (auto elim!: exE conjE)
  have nnA: "nodes TLA = nodes TRA" using invA by (simp add: bimap_inv_def)
  have hBx: "head_node (left_treap B) \<notin> set (map addr_of xs)"
    "head_node (right_treap B) \<notin> set (map addr_of xs)"
    using hB fx by auto
  have eB': "bimap_inv sA B Tip Tip"
    using eB by (rule bimap_inv_frame) (use flA frA hBx hl hr in auto)
  have fyA: "\<forall>op\<in>set ys. lnodes sA (addr_of op) = None \<and> rnodes sA (addr_of op) = None"
  proof
    fix op assume o: "op \<in> set ys"
    have "addr_of op \<notin> set (map addr_of xs)" using o dxy by auto
    moreover have "addr_of op \<noteq> head_node (left_treap A)" "addr_of op \<noteq> head_node (right_treap A)"
      using hA fy o by auto
    ultimately show "lnodes sA (addr_of op) = None \<and> rnodes sA (addr_of op) = None"
      using flA frA fy o by simp
  qed
  from insert_all_correct [OF eB' day fyA _ pwy, of n]
  obtain sB B' TLB TRB where
    runB: "insert_all n sA B ys = Inr (sB, B')"
    and invB: "bimap_inv sB B' TLB TRB"
    and tB: "left_treap B' = left_treap B" "right_treap B' = right_treap B"
    and nB: "nodes TLB = nodes Tip \<union> set (map addr_of ys)"
    and cB: "count TLB = count Tip + length ys"
    and pB: "\<forall>op\<in>set ys. pair_at sB (addr_of op) = Some (snd op)"
    and poB: "\<forall>y. y \<notin> set (map addr_of ys) \<longrightarrow> pair_at sB y = pair_at sA y"
    and flB: "\<forall>y. y \<notin> set (map addr_of ys) \<union> insert (head_node (left_treap B)) (nodes Tip)
                  \<longrightarrow> lnodes sB y = lnodes sA y"
    and frB: "\<forall>y. y \<notin> set (map addr_of ys) \<union> insert (head_node (right_treap B)) (nodes Tip)
                  \<longrightarrow> rnodes sB y = rnodes sA y"
    using fuel room len by (auto elim!: exE conjE)
  have hAy: "head_node (left_treap A) \<notin> set (map addr_of ys)"
    "head_node (right_treap A) \<notin> set (map addr_of ys)"
    using hA fy by auto
  have keepl: "lnodes sB y = lnodes sA y"
    if "y \<notin> set (map addr_of ys)" "y \<noteq> head_node (left_treap B)" for y
    using flB that by simp
  have keepr: "rnodes sB y = rnodes sA y"
    if "y \<notin> set (map addr_of ys)" "y \<noteq> head_node (right_treap B)" for y
    using frB that by simp
  have nA': "nodes TLA = set (map addr_of xs)" "nodes TRA = set (map addr_of xs)"
    using nA nnA by simp_all
  have invA': "bimap_inv sB A' TLA TRA"
    using invA
  proof (rule bimap_inv_frame)
    show "\<forall>y\<in>insert (head_node (left_treap A')) (nodes TLA). lnodes sB y = lnodes sA y"
      unfolding tA nA'
      by (rule frame_disjoint [OF keepl dxy hAy(1) hBx(1) hl])
    show "\<forall>y\<in>insert (head_node (right_treap A')) (nodes TRA). rnodes sB y = rnodes sA y"
      unfolding tA nA'
      by (rule frame_disjoint [OF keepr dxy hAy(2) hBx(2) hr])
  qed
  have fA: "count TLA < n" and fB: "count TLB < n" using cA cB len fuel by simp_all
  have eq: "bimap_equal n sB A' B' =
    Inr (bimap_size A' = bimap_size B'
         \<and> map (pair_of sB) (inorder TLA) = map (pair_of sB) (inorder TLB))"
    using invA' invB fA fB by (rule bimap_equal_correct)
  have "unat (size_field A') = count TLA" "unat (size_field B') = count TLB"
    using invA' invB by (simp_all add: bimap_inv_def)
  then have "unat (size_field A') = unat (size_field B')" and szA: "unat (size_field A') = length xs"
    using cA cB len by simp_all
  then have sz: "bimap_size A' = bimap_size B'" by (simp add: bimap_size_def word_unat_eq_iff)
  have pA': "\<forall>op\<in>set xs. pair_at sB (addr_of op) = Some (snd op)"
  proof
    fix op assume o: "op \<in> set xs"
    then have "addr_of op \<in> set (map addr_of xs)" by simp
    then have "addr_of op \<notin> set (map addr_of ys)" using dxy by (simp only: disjoint_iff) simp
    then have "pair_at sB (addr_of op) = pair_at sA (addr_of op)" using poB by simp
    then show "pair_at sB (addr_of op) = Some (snd op)" using pA o by simp
  qed
  have setA: "set (map (pair_of sB) (inorder TLA)) = set (map snd xs)"
    using invA' _ pA' by (rule built_pairs_set) (use nA in simp)
  have setB: "set (map (pair_of sB) (inorder TLB)) = set (map snd ys)"
    using invB _ pB by (rule built_pairs_set) (use nB in simp)
  have swo: "strict_weak_order ?cl" using eA by (simp add: bimap_inv_def treap_inv_def)
  let ?R = "\<lambda>p q :: 'a \<times> 'b. ?cl (fst p) (fst q)"
  have irr: "\<forall>x. \<not> ?R x x" using swo by (simp add: strict_weak_order_def)
  have tr: "\<forall>x y z. ?R x y \<longrightarrow> ?R y z \<longrightarrow> ?R x z"
    using swo unfolding strict_weak_order_def by blast
  have sA: "sorted_wrt ?R (map (pair_of sB) (inorder TLA))"
    using sorted_pairs [OF invA'] tA by simp
  have sB: "sorted_wrt ?R (map (pair_of sB) (inorder TLB))"
    using sorted_pairs [OF invB] tB cl by simp
  have lists: "map (pair_of sB) (inorder TLA) = map (pair_of sB) (inorder TLB)"
    using irr tr sA sB by (rule sorted_wrt_unique) (use setA setB same in simp)
  have res: "bimap_equal n sB A' B' = Inr True" using eq sz lists by simp
  have trv: "traverse_pairs n sB A' = traverse_pairs n sB B'"
    using traverse_pairs_correct [OF invA' fA] traverse_pairs_correct [OF invB fB] lists by simp
  show ?thesis using runA runB res trv szA by (auto simp: bimap_size_def)
qed

lemma second_fresh_inv:
  "bimap_inv (fst second_fresh) (snd fresh_bimap) Tip Tip"
  "bimap_inv (fst second_fresh) (snd second_fresh) Tip Tip"
  by (simp_all add: second_fresh_def fresh_bimap_def bimap_ctor_def treap_ctor_def
      empty_store_def bimap_inv_def treap_inv_def parent_is_def swo_less_nat)

lemma one_and_empty_inv:
  "bimap_inv (fst one_and_empty) one_pair_bimap (Fork Tip 1 Tip) (Fork Tip 1 Tip)"
  "bimap_inv (fst one_and_empty) (snd one_and_empty) Tip Tip"
  by (simp_all add: one_and_empty_def one_pair_store_def one_pair_bimap_def bimap_ctor_def
      treap_ctor_def bimap_inv_def treap_inv_def parent_is_def swo_less_nat)

section \<open>The operations on well-formed containers\<close>

text \<open>
  The theorems of this part are about the states that satisfy \<open>bimap_inv\<close>: both trees
  are linked search trees hanging from their own head nodes, with the same nodes, and
  the size field counts them.  The constructor and \<open>insert\<close> establish and keep this
  invariant.  \<open>swap\<close> and the move operations do not: the states they produce, and what
  the operations do there, are the subject of the last part.
\<close>

subsection \<open>Inserting a key that is already stored\<close>

text \<open>
  In a well-formed container (\<open>bimap_inv\<close>) that is not empty, \<open>insert(l, r)\<close>
  with \<open>l\<close> equivalent to a stored left key or \<open>r\<close> equivalent to a stored right key
  returns \<open>end_left()\<close> and returns the store and the container as they were: nothing
  is allocated, no cell and no size changes.  In particular, when \<open>insert(k, v)\<close> has
  stored the pair \<open>(k, v)\<close> in the new node \<open>a\<close>, a following \<open>insert(k, w)\<close> returns
  \<open>end_left()\<close> and leaves that state, with its size and the pair \<open>(k, v)\<close>, as it is.
  The step budget \<open>n\<close> only has to exceed the number of stored pairs by two.
\<close>

theorem insert_existing_key_is_noop:
  assumes inv: "bimap_inv s b TL TR" and fuel: "count TL + 2 < n"
  shows "(\<not> bimap_empty b
          \<and> ((\<exists>x\<in>nodes TL. equiv_keys (comparator (left_treap b)) (the_key (lnodes s) x) l)
             \<or> (\<exists>x\<in>nodes TR. equiv_keys (comparator (right_treap b)) (the_key (rnodes s) x) r))
          \<longrightarrow> bimap_insert n alloc s b l r = Inr (s, b, end_left b))
       \<and> (lnodes s a = None \<and> rnodes s a = None \<and> count TL + 1 < 2 ^ 64
          \<and> (\<forall>x\<in>nodes TL. \<not> equiv_keys (comparator (left_treap b)) (the_key (lnodes s) x) k)
          \<and> (\<forall>x\<in>nodes TR. \<not> equiv_keys (comparator (right_treap b)) (the_key (rnodes s) x) v)
          \<longrightarrow> (\<exists>s1 b1. bimap_insert n (Some (a, pl, pr)) s b k v = Inr (s1, b1, LeftIt (Some a))
                 \<and> LeftIt (Some a) \<noteq> end_left b1
                 \<and> pair_at s1 a = Some (k, v)
                 \<and> bimap_size b1 = bimap_size b + 1
                 \<and> bimap_insert n alloc s1 b1 k w = Inr (s1, b1, end_left b1)))"
proof (intro conjI impI)
  assume "\<not> bimap_empty b
          \<and> ((\<exists>x\<in>nodes TL. equiv_keys (comparator (left_treap b)) (the_key (lnodes s) x) l)
             \<or> (\<exists>x\<in>nodes TR. equiv_keys (comparator (right_treap b)) (the_key (rnodes s) x) r))"
  then show "bimap_insert n alloc s b l r = Inr (s, b, end_left b)"
    using bimap_insert_rejects [OF inv, of n l r alloc] fuel by simp
next
  assume h: "lnodes s a = None \<and> rnodes s a = None \<and> count TL + 1 < 2 ^ 64
          \<and> (\<forall>x\<in>nodes TL. \<not> equiv_keys (comparator (left_treap b)) (the_key (lnodes s) x) k)
          \<and> (\<forall>x\<in>nodes TR. \<not> equiv_keys (comparator (right_treap b)) (the_key (rnodes s) x) v)"
  let ?b1 = "b\<lparr>size_field := size_field b + 1\<rparr>"
  have f1: "count TL + 1 < n" using fuel by simp
  from h bimap_insert_stores [OF inv _ _ _ _ f1, of a k v pl pr]
  obtain s1 TL' TR' where
    run: "bimap_insert n (Some (a, pl, pr)) s b k v = Inr (s1, ?b1, LeftIt (Some a))"
    and inv1: "bimap_inv s1 ?b1 TL' TR'"
    and n1: "nodes TL' = insert a (nodes TL)"
    and p1: "pair_at s1 a = Some (k, v)"
    by blast
  have wl: "wf_tree (lnodes s) TL" and wl1: "wf_tree (lnodes s1) TL'"
    using inv inv1 by (auto simp: bimap_inv_def treap_inv_def)
  have aTL: "a \<notin> nodes TL" using wf_tree_alloc [OF wl, of a] h by auto
  have c1: "count TL' = count TL + 1"
    using n1 aTL by (simp add: count_card [OF wl] count_card [OF wl1])
  have ne: "\<not> bimap_empty ?b1"
    using inv1 c1 by (auto simp: bimap_inv_def bimap_empty_def bimap_size_def)
  have swo: "strict_weak_order (comparator (left_treap ?b1))"
    using inv1 by (simp add: bimap_inv_def treap_inv_def)
  have "equiv_keys (comparator (left_treap ?b1)) (the_key (lnodes s1) a) k"
    using pair_at_the_key [OF p1] equiv_keys_refl [OF swo] by simp
  then have dup: "(\<exists>x\<in>nodes TL'. equiv_keys (comparator (left_treap ?b1)) (the_key (lnodes s1) x) k)
      \<or> (\<exists>x\<in>nodes TR'. equiv_keys (comparator (right_treap ?b1)) (the_key (rnodes s1) x) w)"
    using n1 by blast
  have f2: "count TL' < n" using fuel c1 by simp
  have again: "bimap_insert n alloc s1 ?b1 k w = Inr (s1, ?b1, end_left ?b1)"
    using inv1 ne f2 dup by (rule bimap_insert_rejects)
  have "a \<in> nodes TL'" using n1 by simp
  then have "LeftIt (Some a) \<noteq> end_left ?b1" by (rule node_not_head_left [OF inv1])
  then show "\<exists>s1 b1. bimap_insert n (Some (a, pl, pr)) s b k v = Inr (s1, b1, LeftIt (Some a))
                 \<and> LeftIt (Some a) \<noteq> end_left b1
                 \<and> pair_at s1 a = Some (k, v)
                 \<and> bimap_size b1 = bimap_size b + 1
                 \<and> bimap_insert n alloc s1 b1 k w = Inr (s1, b1, end_left b1)"
    using run p1 again by (auto simp: bimap_size_def)
qed

theorem insert_existing_key_is_noop_witness:
  "bimap_inv one_pair_store one_pair_bimap (Fork Tip 1 Tip) (Fork Tip 1 Tip)
   \<and> \<not> bimap_empty one_pair_bimap
   \<and> (\<exists>x\<in>nodes (Fork Tip 1 Tip).
         equiv_keys (comparator (left_treap one_pair_bimap)) (the_key (lnodes one_pair_store) x) 2)
   \<and> bimap_insert 4 None one_pair_store one_pair_bimap 2 99 =
       Inr (one_pair_store, one_pair_bimap, end_left one_pair_bimap)
   \<and> lnodes one_pair_store 2 = None \<and> rnodes one_pair_store 2 = None
   \<and> (\<exists>s1 b1. bimap_insert 4 (Some (2, 5, 7)) one_pair_store one_pair_bimap 5 50 =
         Inr (s1, b1, LeftIt (Some 2))
       \<and> pair_at s1 2 = Some (5, 50)
       \<and> bimap_insert 4 None s1 b1 5 51 = Inr (s1, b1, end_left b1))"
proof -
  have ne: "\<not> bimap_empty one_pair_bimap"
    by (simp add: bimap_empty_def bimap_size_def one_pair_bimap_def)
  have dup: "\<exists>x\<in>nodes (Fork Tip 1 Tip).
      equiv_keys (comparator (left_treap one_pair_bimap)) (the_key (lnodes one_pair_store) x) 2"
    by (simp add: equiv_keys_def the_key_def one_pair_store_def one_pair_bimap_def)
  have fresh: "lnodes one_pair_store 2 = None" "rnodes one_pair_store 2 = None"
    by (simp_all add: one_pair_store_def)
  have al: "\<forall>x\<in>nodes (Fork Tip 1 Tip).
      \<not> equiv_keys (comparator (left_treap one_pair_bimap)) (the_key (lnodes one_pair_store) x) 5"
    by (simp add: equiv_keys_def the_key_def one_pair_store_def one_pair_bimap_def)
  have ar: "\<forall>x\<in>nodes (Fork Tip 1 Tip).
      \<not> equiv_keys (comparator (right_treap one_pair_bimap)) (the_key (rnodes one_pair_store) x) 50"
    by (simp add: equiv_keys_def the_key_def one_pair_store_def one_pair_bimap_def)
  have fuel: "count (Fork Tip 1 Tip) + 2 < 4" by simp
  have room: "count (Fork Tip 1 Tip) + 1 < 2 ^ 64" by simp
  note t = insert_existing_key_is_noop [OF one_pair_inv fuel, of 2 99 None 2 5 50 5 7 51]
  from t ne dup have first:
    "bimap_insert 4 None one_pair_store one_pair_bimap 2 99 =
       Inr (one_pair_store, one_pair_bimap, end_left one_pair_bimap)" by blast
  from t fresh room al ar have second:
    "\<exists>s1 b1. bimap_insert 4 (Some (2, 5, 7)) one_pair_store one_pair_bimap 5 50 =
         Inr (s1, b1, LeftIt (Some 2))
       \<and> pair_at s1 2 = Some (5, 50)
       \<and> bimap_insert 4 None s1 b1 5 51 = Inr (s1, b1, end_left b1)" by blast
  show ?thesis using one_pair_inv ne dup first fresh second by blast
qed

subsection \<open>Erasing by key\<close>

text \<open>
  In a well-formed container that holds the pair \<open>(k, r)\<close> (in the node \<open>x\<close>),
  \<open>erase_left(k)\<close> returns \<open>true\<close>; afterwards \<open>find_left(k)\<close> is \<open>end_left()\<close>,
  \<open>find_right(r)\<close> is \<open>end_right()\<close> and the size is smaller by exactly one.  The same
  holds for \<open>erase_right(r)\<close>.  The step budget only has to exceed the number of stored
  pairs.
\<close>

theorem erase_by_key_removes_pair:
  assumes "bimap_inv s b TL TR" "x \<in> nodes TL" "pair_at s x = Some (k, r)" "count TL < n"
  shows "(\<exists>s' b'. erase_left n s b k = Inr (s', b', True)
           \<and> find_left n s' b' k = Inr (end_left b')
           \<and> find_right n s' b' r = Inr (end_right b')
           \<and> bimap_size b' = bimap_size b - 1
           \<and> unat (bimap_size b') + 1 = unat (bimap_size b))
       \<and> (\<exists>s' b'. erase_right n s b r = Inr (s', b', True)
           \<and> find_right n s' b' r = Inr (end_right b')
           \<and> find_left n s' b' k = Inr (end_left b')
           \<and> bimap_size b' = bimap_size b - 1
           \<and> unat (bimap_size b') + 1 = unat (bimap_size b))"
  using erase_left_key_correct [OF assms] erase_right_key_correct [OF assms]
  by (rule conjI)

theorem erase_by_key_removes_pair_witness:
  "bimap_inv one_pair_store one_pair_bimap (Fork Tip 1 Tip) (Fork Tip 1 Tip)
   \<and> 1 \<in> nodes (Fork Tip 1 Tip)
   \<and> pair_at one_pair_store 1 = Some (2, 20)
   \<and> count (Fork Tip 1 Tip) < 2
   \<and> (\<exists>s' b'. erase_left 2 one_pair_store one_pair_bimap 2 = Inr (s', b', True)
         \<and> find_left 2 s' b' 2 = Inr (end_left b')
         \<and> find_right 2 s' b' 20 = Inr (end_right b')
         \<and> unat (bimap_size b') + 1 = unat (bimap_size one_pair_bimap))
   \<and> (\<exists>s' b'. erase_right 2 one_pair_store one_pair_bimap 20 = Inr (s', b', True)
         \<and> find_right 2 s' b' 20 = Inr (end_right b')
         \<and> find_left 2 s' b' 2 = Inr (end_left b')
         \<and> unat (bimap_size b') + 1 = unat (bimap_size one_pair_bimap))"
proof -
  have x: "1 \<in> nodes (Fork Tip 1 Tip)" by simp
  have p: "pair_at one_pair_store 1 = Some (2, 20)"
    by (simp add: pair_at_def one_pair_store_def)
  have fuel: "count (Fork Tip 1 Tip) < 2" by simp
  from erase_by_key_removes_pair [OF one_pair_inv x p fuel] one_pair_inv x p fuel
  show ?thesis by blast
qed

subsection \<open>Lookup with a default\<close>

text \<open>
  In a well-formed container where no left key is equivalent to \<open>k\<close> and the
  node \<open>x\<close> stores the pair \<open>(other_l, dr)\<close> with \<open>dr\<close> the default right value,
  \<open>at_left_or_default(k)\<close> returns \<open>dr\<close>; afterwards \<open>at_left(k)\<close> is \<open>dr\<close>,
  \<open>at_right(dr)\<close> is \<open>k\<close> (the pair \<open>(k, dr)\<close> is stored, in the new node \<open>a\<close>) and
  \<open>at_left(other_l)\<close> throws: the pair \<open>(other_l, dr)\<close> is gone.  The size is what it
  was.  The allocator may hand out a fresh address or the one just freed.  The same
  holds for \<open>at_right_or_default\<close> with the default left value \<open>dl\<close>.
\<close>

theorem at_or_default_evicts_holder:
  assumes inv: "bimap_inv s b TL TR" and fuel: "count TL < n"
  shows "(x \<in> nodes TL \<and> pair_at s x = Some (other_l, dr)
          \<and> (\<forall>y\<in>nodes TL. \<not> equiv_keys (comparator (left_treap b)) (the_key (lnodes s) y) k)
          \<and> ((lnodes s a = None \<and> rnodes s a = None) \<or> a = x)
          \<longrightarrow> (\<exists>s' b'. at_left_or_default n (Some (a, pl, pr)) dr s b k = Inr (s', b', dr)
                 \<and> pair_at s' a = Some (k, dr)
                 \<and> at_left n s' b' k = Inr dr
                 \<and> at_right n s' b' dr = Inr k
                 \<and> at_left n s' b' other_l = Inl OutOfRange
                 \<and> bimap_size b' = bimap_size b))
       \<and> (x' \<in> nodes TL \<and> pair_at s x' = Some (dl, other_r)
          \<and> (\<forall>y\<in>nodes TR. \<not> equiv_keys (comparator (right_treap b)) (the_key (rnodes s) y) k')
          \<and> ((lnodes s a' = None \<and> rnodes s a' = None) \<or> a' = x')
          \<longrightarrow> (\<exists>s' b'. at_right_or_default n (Some (a', pl', pr')) dl s b k' = Inr (s', b', dl)
                 \<and> pair_at s' a' = Some (dl, k')
                 \<and> at_right n s' b' k' = Inr dl
                 \<and> at_left n s' b' dl = Inr k'
                 \<and> at_right n s' b' other_r = Inl OutOfRange
                 \<and> bimap_size b' = bimap_size b))"
proof (intro conjI impI)
  assume "x \<in> nodes TL \<and> pair_at s x = Some (other_l, dr)
          \<and> (\<forall>y\<in>nodes TL. \<not> equiv_keys (comparator (left_treap b)) (the_key (lnodes s) y) k)
          \<and> ((lnodes s a = None \<and> rnodes s a = None) \<or> a = x)"
  then show "\<exists>s' b'. at_left_or_default n (Some (a, pl, pr)) dr s b k = Inr (s', b', dr)
                 \<and> pair_at s' a = Some (k, dr)
                 \<and> at_left n s' b' k = Inr dr
                 \<and> at_right n s' b' dr = Inr k
                 \<and> at_left n s' b' other_l = Inl OutOfRange
                 \<and> bimap_size b' = bimap_size b"
    using at_left_or_default_evicts [OF inv _ _ _ _ fuel, of x other_l dr k a pl pr] by simp
next
  assume "x' \<in> nodes TL \<and> pair_at s x' = Some (dl, other_r)
          \<and> (\<forall>y\<in>nodes TR. \<not> equiv_keys (comparator (right_treap b)) (the_key (rnodes s) y) k')
          \<and> ((lnodes s a' = None \<and> rnodes s a' = None) \<or> a' = x')"
  then show "\<exists>s' b'. at_right_or_default n (Some (a', pl', pr')) dl s b k' = Inr (s', b', dl)
                 \<and> pair_at s' a' = Some (dl, k')
                 \<and> at_right n s' b' k' = Inr dl
                 \<and> at_left n s' b' dl = Inr k'
                 \<and> at_right n s' b' other_r = Inl OutOfRange
                 \<and> bimap_size b' = bimap_size b"
    using at_right_or_default_evicts [OF inv _ _ _ _ fuel, of x' dl other_r k' a' pl' pr'] by simp
qed

theorem at_or_default_evicts_holder_witness:
  "bimap_inv default_pairs_store default_pairs_bimap
     (Fork Tip 1 (Fork Tip 2 Tip)) (Fork (Fork Tip 2 Tip) 1 Tip)
   \<and> count (Fork Tip 1 (Fork Tip 2 Tip)) < 3
   \<and> pair_at default_pairs_store 2 = Some (7, 0)
   \<and> pair_at default_pairs_store 1 = Some (0, 5)
   \<and> (\<exists>s' b'. at_left_or_default 3 (Some (2, 4, 6)) 0 default_pairs_store default_pairs_bimap 3
            = Inr (s', b', 0)
         \<and> at_left 3 s' b' 3 = Inr 0 \<and> at_right 3 s' b' 0 = Inr 3
         \<and> at_left 3 s' b' 7 = Inl OutOfRange)
   \<and> (\<exists>s' b'. at_right_or_default 3 (Some (3, 4, 6)) 0 default_pairs_store default_pairs_bimap 9
            = Inr (s', b', 0)
         \<and> at_right 3 s' b' 9 = Inr 0 \<and> at_left 3 s' b' 0 = Inr 9
         \<and> at_right 3 s' b' 5 = Inl OutOfRange)"
proof -
  have fuel: "count (Fork Tip 1 (Fork Tip 2 Tip)) < 3" by simp
  have p2: "pair_at default_pairs_store 2 = Some (7, 0)"
    and p1: "pair_at default_pairs_store 1 = Some (0, 5)"
    by (simp_all add: pair_at_def default_pairs_store_def)
  have al: "\<forall>y\<in>nodes (Fork Tip 1 (Fork Tip 2 Tip)).
      \<not> equiv_keys (comparator (left_treap default_pairs_bimap))
          (the_key (lnodes default_pairs_store) y) 3"
    by (simp add: equiv_keys_def the_key_def default_pairs_store_def default_pairs_bimap_def)
  have ar: "\<forall>y\<in>nodes (Fork (Fork Tip 2 Tip) 1 Tip).
      \<not> equiv_keys (comparator (right_treap default_pairs_bimap))
          (the_key (rnodes default_pairs_store) y) 9"
    by (simp add: equiv_keys_def the_key_def default_pairs_store_def default_pairs_bimap_def)
  have f3: "lnodes default_pairs_store 3 = None \<and> rnodes default_pairs_store 3 = None"
    by (simp add: default_pairs_store_def)
  note t = at_or_default_evicts_holder [OF default_pairs_inv fuel,
      of 2 7 0 3 2 4 6 1 0 5 9 3 4 6]
  from t p2 al have left:
    "\<exists>s' b'. at_left_or_default 3 (Some (2, 4, 6)) 0 default_pairs_store default_pairs_bimap 3
            = Inr (s', b', 0)
         \<and> at_left 3 s' b' 3 = Inr 0 \<and> at_right 3 s' b' 0 = Inr 3
         \<and> at_left 3 s' b' 7 = Inl OutOfRange"
    by simp blast
  from t p1 ar f3 have right:
    "\<exists>s' b'. at_right_or_default 3 (Some (3, 4, 6)) 0 default_pairs_store default_pairs_bimap 9
            = Inr (s', b', 0)
         \<and> at_right 3 s' b' 9 = Inr 0 \<and> at_left 3 s' b' 0 = Inr 9
         \<and> at_right 3 s' b' 5 = Inl OutOfRange"
    by simp blast
  show ?thesis using default_pairs_inv fuel p2 p1 left right by blast
qed


subsection \<open>Equality does not depend on the insertion order\<close>

text \<open>
  Let \<open>A\<close> and \<open>B\<close> be two empty well-formed containers with the same
  comparators, and \<open>xs\<close> and \<open>ys\<close> two sequences of insertions of the same set of pairs,
  each pair once, any two different pairs having inequivalent left keys and
  inequivalent right keys (the allocated addresses are new and pairwise different).
  Then both sequences run to their end and \<open>A == B\<close> returns \<open>true\<close> on the containers
  they build.  For any two well-formed containers \<open>C\<close> and \<open>D\<close>, \<open>C == D\<close> returns
  \<open>true\<close> exactly when the sizes are equal and the walks over \<open>C\<close> and \<open>D\<close> in the order of
  the left keys yield the same sequence of pairs \<open>(l, r)\<close>.  The step budgets only have to
  exceed the number of pairs.
\<close>

theorem same_pairs_any_order_equal:
  assumes "bimap_inv s A Tip Tip" and "bimap_inv s B Tip Tip"
    and "head_node (left_treap A) \<noteq> head_node (left_treap B)"
    and "head_node (right_treap A) \<noteq> head_node (right_treap B)"
    and "comparator (left_treap A) = comparator (left_treap B)"
    and "comparator (right_treap A) = comparator (right_treap B)"
    and "set (map snd xs) = set (map snd ys)"
    and "distinct (map snd xs)" and "distinct (map snd ys)"
    and "\<forall>p\<in>set (map snd xs). \<forall>q\<in>set (map snd xs). p \<noteq> q \<longrightarrow>
        keys_apart (comparator (left_treap A)) (comparator (right_treap A)) p q"
    and "distinct (map addr_of (xs @ ys))"
    and "\<forall>op\<in>set (xs @ ys). lnodes s (addr_of op) = None \<and> rnodes s (addr_of op) = None"
    and "length xs < n" and "length xs < 2 ^ 64"
    and invC: "bimap_inv t C TLC TRC" and invD: "bimap_inv t D TLD TRD"
    and fuelC: "count TLC < m" and fuelD: "count TLD < m"
  shows "(\<exists>sA A' sB B'. insert_all n s A xs = Inr (sA, A')
           \<and> insert_all n sA B ys = Inr (sB, B')
           \<and> bimap_equal n sB A' B' = Inr True)
       \<and> bimap_equal m t C D =
           Inr (bimap_size C = bimap_size D \<and> traverse_pairs m t C = traverse_pairs m t D)"
proof
  from same_pairs_equal [OF assms(1-14)]
  show "\<exists>sA A' sB B'. insert_all n s A xs = Inr (sA, A')
           \<and> insert_all n sA B ys = Inr (sB, B')
           \<and> bimap_equal n sB A' B' = Inr True"
    by (elim exE conjE) (intro exI conjI)
next
  have "traverse_pairs m t C = Inr (map (pair_of t) (inorder TLC))"
    using invC fuelC by (rule traverse_pairs_correct)
  moreover have "traverse_pairs m t D = Inr (map (pair_of t) (inorder TLD))"
    using invD fuelD by (rule traverse_pairs_correct)
  ultimately show "bimap_equal m t C D =
      Inr (bimap_size C = bimap_size D \<and> traverse_pairs m t C = traverse_pairs m t D)"
    using bimap_equal_correct [OF invC invD fuelC fuelD] by simp
qed

theorem same_pairs_any_order_equal_witness:
  "bimap_inv (fst second_fresh) (snd fresh_bimap) Tip Tip
   \<and> bimap_inv (fst second_fresh) (snd second_fresh) Tip Tip
   \<and> set (map snd [((1, 9, 4), (2, 20)), ((2, 5, 7), (5, 50 :: nat)) :: (addr \<times> 32 word \<times> 32 word) \<times> nat \<times> nat])
       = set (map snd [((3, 1, 2), (5, 50)), ((4, 8, 6), (2, 20 :: nat)) :: (addr \<times> 32 word \<times> 32 word) \<times> nat \<times> nat])
   \<and> (\<exists>sA A' sB B'.
         insert_all 3 (fst second_fresh) (snd fresh_bimap) [((1, 9, 4), (2, 20)), ((2, 5, 7), (5, 50))]
           = Inr (sA, A')
       \<and> insert_all 3 sA (snd second_fresh) [((3, 1, 2), (5, 50)), ((4, 8, 6), (2, 20))]
           = Inr (sB, B')
       \<and> bimap_equal 3 sB A' B' = Inr True)
   \<and> bimap_inv (fst one_and_empty) one_pair_bimap (Fork Tip 1 Tip) (Fork Tip 1 Tip)
   \<and> bimap_inv (fst one_and_empty) (snd one_and_empty) Tip Tip
   \<and> bimap_equal 2 (fst one_and_empty) one_pair_bimap (snd one_and_empty) =
       Inr (bimap_size one_pair_bimap = bimap_size (snd one_and_empty)
            \<and> traverse_pairs 2 (fst one_and_empty) one_pair_bimap
                = traverse_pairs 2 (fst one_and_empty) (snd one_and_empty))"
proof -
  let ?xs = "[((1, 9, 4), (2, 20)), ((2, 5, 7), (5, 50 :: nat))] :: ((addr \<times> 32 word \<times> 32 word) \<times> nat \<times> nat) list"
  let ?ys = "[((3, 1, 2), (5, 50)), ((4, 8, 6), (2, 20 :: nat))] :: ((addr \<times> 32 word \<times> 32 word) \<times> nat \<times> nat) list"
  have hl: "head_node (left_treap (snd fresh_bimap)) \<noteq> head_node (left_treap (snd second_fresh))"
    and hr: "head_node (right_treap (snd fresh_bimap)) \<noteq> head_node (right_treap (snd second_fresh))"
    and cl: "comparator (left_treap (snd fresh_bimap)) = comparator (left_treap (snd second_fresh))"
    and cr: "comparator (right_treap (snd fresh_bimap)) = comparator (right_treap (snd second_fresh))"
    by (simp_all add: second_fresh_def fresh_bimap_def bimap_ctor_def treap_ctor_def)
  have same: "set (map snd ?xs) = set (map snd ?ys)" by auto
  have dx: "distinct (map snd ?xs)" and dy: "distinct (map snd ?ys)" by simp_all
  have apart: "\<forall>p\<in>set (map snd ?xs). \<forall>q\<in>set (map snd ?xs). p \<noteq> q \<longrightarrow>
      keys_apart (comparator (left_treap (snd fresh_bimap)))
        (comparator (right_treap (snd fresh_bimap))) p q"
    by (simp add: keys_apart_def equiv_keys_def fresh_bimap_def bimap_ctor_def treap_ctor_def)
  have da: "distinct (map addr_of (?xs @ ?ys))" by (simp add: addr_of_def)
  have fresh: "\<forall>op\<in>set (?xs @ ?ys).
      lnodes (fst second_fresh) (addr_of op) = None \<and> rnodes (fst second_fresh) (addr_of op) = None"
    by (simp add: addr_of_def second_fresh_def fresh_bimap_def bimap_ctor_def treap_ctor_def
        empty_store_def)
  have fuel: "length ?xs < 3" and room: "length ?xs < 2 ^ 64" by simp_all
  have f1: "count (Fork Tip 1 Tip) < 2" and f2: "count Tip < 2" by simp_all
  note t = same_pairs_any_order_equal [OF second_fresh_inv hl hr cl cr same dx dy apart da fresh
      fuel room one_and_empty_inv f1 f2]
  show ?thesis using second_fresh_inv one_and_empty_inv same t by (intro conjI) simp_all
qed
section \<open>Flip\<close>

text \<open>
  Claim C5.  Flipping twice gives the iterator back; the flipped iterator points to the
  same allocation (flip reads no cell of the store, it only casts the pointer), so for
  an iterator to the allocation that stores the pair \<open>(l, r)\<close> the left iterator
  dereferences to \<open>l\<close> and its flip to \<open>r\<close>, and the other way round.
\<close>

theorem flip_flip_same_pair:
  assumes "pair_at s a = Some (l, r)"
  shows "flip_right (flip_left (LeftIt (Some a))) = LeftIt (Some a)
       \<and> flip_left (flip_right (RightIt (Some a))) = RightIt (Some a)
       \<and> r_it (flip_left (LeftIt (Some a))) = Some a
       \<and> l_it (flip_right (RightIt (Some a))) = Some a
       \<and> deref_left s (LeftIt (Some a)) = Inr l
       \<and> deref_right s (flip_left (LeftIt (Some a))) = Inr r
       \<and> deref_right s (RightIt (Some a)) = Inr r
       \<and> deref_left s (flip_right (RightIt (Some a))) = Inr l"
  using assms
  by (auto simp: pair_at_def flip_left_def flip_right_def deref_left_def deref_right_def
      key_of_def deref_def load_def bind_def split: option.splits)

theorem flip_flip_same_pair_witness:
  "pair_at (new_node empty_store 1 9 4 2 20) 1 = Some (2, 20)
   \<and> flip_right (flip_left (LeftIt (Some 1))) = LeftIt (Some 1)
   \<and> deref_left (new_node empty_store 1 9 4 2 20) (LeftIt (Some 1)) = Inr 2
   \<and> deref_right (new_node empty_store 1 9 4 2 20) (flip_left (LeftIt (Some 1))) = Inr 20"
proof -
  have p: "pair_at (new_node empty_store 1 9 4 2 20) 1 = Some (2, 20)"
    by (simp add: pair_at_def new_node_def empty_store_def)
  from flip_flip_same_pair [OF p] p show ?thesis by simp
qed

section \<open>Assignment from an empty container\<close>

text \<open>
  Claim C10.  When the source of an assignment is empty (\<open>other.empty()\<close>), copy
  assignment and move assignment return at once: the store, and with it every pair of
  the assigned container, and the container's size are what they were; the assigned
  container does not become empty.
\<close>

theorem assign_from_empty_unchanged:
  assumes "bimap_empty e"
  shows "copy_assign n allocs s b e = Inr (s, b) \<and> move_assign n s b e = Inr (s, b, e)"
  using assms by (simp add: copy_assign_def move_assign_def)

theorem assign_from_empty_unchanged_witness:
  "bimap_empty (snd one_and_empty)
   \<and> \<not> bimap_empty one_pair_bimap
   \<and> pair_at (fst one_and_empty) 1 = Some (2, 20)
   \<and> copy_assign 3 [] (fst one_and_empty) one_pair_bimap (snd one_and_empty)
       = Inr (fst one_and_empty, one_pair_bimap)
   \<and> move_assign 3 (fst one_and_empty) one_pair_bimap (snd one_and_empty)
       = Inr (fst one_and_empty, one_pair_bimap, snd one_and_empty)"
proof -
  have e: "bimap_empty (snd one_and_empty)"
    by (simp add: one_and_empty_def bimap_ctor_def bimap_empty_def bimap_size_def)
  have ne: "\<not> bimap_empty one_pair_bimap"
    by (simp add: one_pair_bimap_def bimap_empty_def bimap_size_def)
  have p: "pair_at (fst one_and_empty) 1 = Some (2, 20)"
    by (simp add: one_and_empty_def bimap_ctor_def treap_ctor_def one_pair_store_def pair_at_def)
  from assign_from_empty_unchanged [OF e] e ne p show ?thesis by simp
qed

section \<open>Where the code leaves its contract\<close>

text \<open>
  Claim C6 fails on the code.  In the container with the left keys 2 (the root) and 5,
  \<open>treap::remove(3)\<close> on the left treap finds no key equal to 3 and returns the end
  iterator, but it returns from the middle of the operation: the tree has been split
  and is not merged again, so the key 5 is no longer reachable from the head node.
  With no key at or above the one asked for (\<open>remove(7)\<close>) the candidate pointer is
  null and is dereferenced.
\<close>

theorem remove_absent_loses_keys:
  "bind two_pairs (\<lambda>(s, b). traverse_left 3 s b) = Inr [2, 5]
   \<and> bind two_pairs (\<lambda>(s, b).
        bind (treap_remove 3 (lnodes s) (left_treap b) 3) (\<lambda>(h, i).
          Inr (i = treap_end (left_treap b)))) = Inr True
   \<and> bind two_pairs (\<lambda>(s, b).
        bind (treap_remove 3 (lnodes s) (left_treap b) 3) (\<lambda>(h, i).
          traverse_left 3 (s\<lparr>lnodes := h\<rparr>) b)) = Inr [2]
   \<and> bind two_pairs (\<lambda>(s, b).
        bind (treap_remove 3 (lnodes s) (left_treap b) 3) (\<lambda>(h, i).
          treap_exist 3 h (left_treap b) 5)) = Inr (Some 100)
   \<and> bind two_pairs (\<lambda>(s, b).
        bind (treap_remove 3 (lnodes s) (left_treap b) 7) (\<lambda>(h, i). Inr i)) = Inl NullDeref"
  by code_simp

text \<open>
  Claim C7 fails on the code.  The move constructor copies the size and takes the
  roots, but leaves the size of the source as it was: the source still answers
  \<open>size() == 1\<close> and \<open>empty() == false\<close> although its trees are empty.  The root taken
  over still has the head node of the source as its parent, so a traversal of the new
  container does not stop at its own end iterator: after the last key it reaches the
  head node of the source, which has no key.
\<close>

theorem move_leaves_source_size:
  "bind one_pair (\<lambda>(s, b). Inr (bimap_size b, bimap_empty b)) = Inr (1, False)
   \<and> bind one_pair (\<lambda>(s, b).
        bind (bimap_move_ctor s 200 201 b) (\<lambda>(s', b').
          Inr (bimap_size b, bimap_empty b, bimap_size b'))) = Inr (1, False, 1)
   \<and> bind one_pair (\<lambda>(s, b).
        bind (bimap_move_ctor s 200 201 b) (\<lambda>(s', b'). traverse_left 3 s' b)) = Inr []
   \<and> bind one_pair (\<lambda>(s, b).
        bind (bimap_move_ctor s 200 201 b) (\<lambda>(s', b').
        bind (begin_left 3 s' b') (\<lambda>i.
        bind (incr_left 3 s' i) (\<lambda>j. Inr (i, j, end_left b'))))) =
       Inr (LeftIt (Some 1), LeftIt (Some 100), LeftIt (Some 200))
   \<and> bind one_pair (\<lambda>(s, b).
        bind (bimap_move_ctor s 200 201 b) (\<lambda>(s', b'). traverse_left 3 s' b')) = Inl NoKey"
  by code_simp

text \<open>
  Claim C8 fails on the code for \<open>upper_bound\<close>.  In the container with the left keys
  2 (the root) and 5, \<open>upper_bound_left(2)\<close> returns \<open>end_left()\<close> although the key 5
  is stored and is greater than 2: the minimum of the split-off part is the key
  itself, and the code steps to its parent, which is the head node, instead of to its
  successor.  \<open>lower_bound_left(3)\<close> finds the node of 5 (at address 2).
\<close>

theorem upper_bound_skips_successor:
  "bind two_pairs (\<lambda>(s, b). traverse_left 3 s b) = Inr [2, 5]
   \<and> bind two_pairs (\<lambda>(s, b).
        bind (upper_bound_left 3 s b 2) (\<lambda>(s', i). Inr (i, end_left b))) =
       Inr (LeftIt (Some 100), LeftIt (Some 100))
   \<and> bind two_pairs (\<lambda>(s, b). find_left 3 s b 5) = Inr (LeftIt (Some 2))
   \<and> bind two_pairs (\<lambda>(s, b).
        bind (lower_bound_left 3 s b 3) (\<lambda>(s', i). Inr i)) = Inr (LeftIt (Some 2))"
  by code_simp

text \<open>
  Claim C4 fails on the code.  \<open>swap\<close> exchanges the trees of two containers but not
  their sizes.  After \<open>a.insert(2, 20)\<close>, a second empty container \<open>c\<close> and
  \<open>a.swap(c)\<close>, the container \<open>c\<close> holds the pair and answers \<open>empty() == true\<close>, so
  \<open>c.insert(2, 21)\<close> skips the search for the keys and stores a second pair with the
  left key 2: the traversal of the left side yields 2, 2.
\<close>

theorem swap_then_insert_duplicates_key:
  "bind after_swap (\<lambda>(s, a, c). traverse_left 3 s c) = Inr [2, 2]
   \<and> bind after_swap (\<lambda>(s, a, c). traverse_right 3 s c) = Inr [20, 21]
   \<and> bind after_swap (\<lambda>(s, a, c). Inr (bimap_size c, bimap_size a)) = Inr (1, 1)
   \<and> bind after_swap (\<lambda>(s, a, c). traverse_left 3 s a) = Inr []"
  by code_simp

text \<open>
  Claim C1 fails on the code, through the size that \<open>swap\<close> leaves behind.  After
  \<open>a.insert(2, 20)\<close> and \<open>a.swap(c)\<close> the container \<open>c\<close> holds the pair with the size 0;
  \<open>c.erase_left(2)\<close> removes the pair and the size wraps around to \<open>2^64 - 1\<close>;
  \<open>c.insert(5, 50)\<close> stores the pair (node 2) and the size wraps to 0.  Now
  \<open>c.insert(5, 51)\<close> finds \<open>empty()\<close> true, skips both searches and stores a second
  pair with the left key 5 (node 3): it does not return \<open>end_left()\<close>, and the size
  changes.
\<close>

theorem insert_twice_after_swap_stores_both:
  "bind swapped (\<lambda>(s, a, c). Inr (bimap_size c, traverse_pairs 3 s c)) = Inr (0, Inr [(2, 20)])
   \<and> bind swapped (\<lambda>(s, a, c).
        bind (erase_left 3 s c 2) (\<lambda>(s1, c1, erased).
          Inr (erased, bimap_size c1, traverse_pairs 3 s1 c1)))
      = Inr (True, 18446744073709551615, Inr [])
   \<and> bind swapped (\<lambda>(s, a, c).
        bind (erase_left 3 s c 2) (\<lambda>(s1, c1, erased).
        bind (bimap_insert 3 (Some (2, 5, 7)) s1 c1 5 50) (\<lambda>(s2, c2, i).
          Inr (i, bimap_size c2, bimap_empty c2, pair_at s2 2, traverse_pairs 3 s2 c2))))
      = Inr (LeftIt (Some 2), 0, True, Some (5, 50), Inr [(5, 50)])
   \<and> bind swapped (\<lambda>(s, a, c).
        bind (erase_left 3 s c 2) (\<lambda>(s1, c1, erased).
        bind (bimap_insert 3 (Some (2, 5, 7)) s1 c1 5 50) (\<lambda>(s2, c2, i).
        bind (bimap_insert 3 (Some (3, 6, 2)) s2 c2 5 51) (\<lambda>(s3, c3, j).
          Inr (j, end_left c3, bimap_size c3, pair_at s3 2, pair_at s3 3,
               traverse_pairs 3 s3 c3)))))
      = Inr (LeftIt (Some 3), LeftIt (Some 200), 1, Some (5, 50), Some (5, 51),
             Inr [(5, 51), (5, 50)])"
  by code_simp

text \<open>
  Claim C2 fails on the code, again behind \<open>swap\<close>.  After \<open>a.insert(2, 20)\<close>,
  \<open>a.swap(c)\<close> and \<open>c.insert(2, 21)\<close> the container \<open>c\<close> holds \<open>(2, 21)\<close> and \<open>(2, 20)\<close>.
  \<open>c.erase_left(2)\<close> returns \<open>true\<close>: \<open>find_left(2)\<close> finds node 1, \<open>treap::remove(2)\<close>
  unlinks the leftmost node with an equivalent key, node 2, and node 1 is deleted
  while it still is the root of the left tree.  \<open>find_left(2)\<close> then reads the freed
  node.  When the second pair was inserted with the higher
  left priority 10, the node found is the one unlinked, the erasure is clean, and
  \<open>find_left(2)\<close> afterwards finds the remaining pair \<open>(2, 20)\<close> instead of returning
  \<open>end_left()\<close>.
\<close>

theorem erase_after_swap_leaves_key:
  "bind after_swap (\<lambda>(s, a, c).
        Inr (traverse_pairs 3 s c, find_left 3 s c 2)) =
      Inr (Inr [(2, 21), (2, 20)], Inr (LeftIt (Some 1)))
   \<and> bind after_swap (\<lambda>(s, a, c).
        bind (erase_left 3 s c 2) (\<lambda>(s', c', erased).
          Inr (erased, pair_at s' 1, pair_at s' 2, get_root (lnodes s') (left_treap c'),
               find_left 3 s' c' 2, end_left c'))) =
      Inr (True, None, Some (2, 21), Inr (Some 1), Inl UseAfterFree, LeftIt (Some 200))
   \<and> bind swapped (\<lambda>(s, a, c).
        bind (bimap_insert 3 (Some (2, 10, 7)) s c 2 21) (\<lambda>(s1, c1, i).
        bind (erase_left 3 s1 c1 2) (\<lambda>(s', c', erased).
          Inr (traverse_pairs 3 s1 c1, erased, find_left 3 s' c' 2, end_left c',
               traverse_pairs 3 s' c')))) =
      Inr (Inr [(2, 21), (2, 20)], True, Inr (LeftIt (Some 1)), LeftIt (Some 200),
           Inr [(2, 20)])"
  by code_simp

text \<open>
  Claim C3 fails on the code, behind \<open>swap\<close> as well.  After \<open>a.insert(7, 0)\<close>,
  \<open>a.swap(c)\<close> and \<open>c.insert(8, 0)\<close> the container \<open>c\<close> holds two pairs with the default
  right value 0, and no left key 3.  In \<open>c.at_left_or_default(3)\<close>, \<open>find_right(0)\<close>
  returns node 1, the erasure unlinks node 2 from the right tree and deletes node 1,
  and the insertion then walks the right tree from the freed root.  When \<open>(8, 0)\<close> was
  inserted with the higher right priority 6, the call returns 0 and stores \<open>(3, 0)\<close>,
  but the pair \<open>(7, 0)\<close> with the default value is still there.
\<close>

theorem at_or_default_after_swap_keeps_holder:
  "bind swapped_default (\<lambda>(s, a, c).
        bind (bimap_insert 3 (Some (2, 5, 3)) s c 8 0) (\<lambda>(s1, c1, i).
          Inr (traverse_pairs 3 s1 c1, find_left 3 s1 c1 3, end_left c1,
               find_right 3 s1 c1 0))) =
      Inr (Inr [(7, 0), (8, 0)], Inr (LeftIt (Some 200)), LeftIt (Some 200),
           Inr (RightIt (Some 1)))
   \<and> bind swapped_default (\<lambda>(s, a, c).
        bind (bimap_insert 3 (Some (2, 5, 3)) s c 8 0) (\<lambda>(s1, c1, i).
        bind (erase_right_it 3 s1 c1 (RightIt (Some 1))) (\<lambda>(s2, c2, nxt).
          Inr (pair_at s2 1, pair_at s2 2, get_root (rnodes s2) (right_treap c2),
               get_root (lnodes s2) (left_treap c2), bimap_empty c2)))) =
      Inr (None, Some (8, 0), Inr (Some 1), Inr (Some 2), True)
   \<and> bind swapped_default (\<lambda>(s, a, c).
        bind (bimap_insert 3 (Some (2, 5, 3)) s c 8 0) (\<lambda>(s1, c1, i).
        bind (at_left_or_default 3 (Some (3, 6, 2)) 0 s1 c1 3) (\<lambda>(s2, c2, v). Inr v))) =
      Inl UseAfterFree
   \<and> bind swapped_default (\<lambda>(s, a, c).
        bind (bimap_insert 3 (Some (2, 5, 6)) s c 8 0) (\<lambda>(s1, c1, i).
        bind (at_left_or_default 3 (Some (3, 6, 2)) 0 s1 c1 3) (\<lambda>(s2, c2, v).
          Inr (traverse_pairs 3 s1 c1, v, traverse_pairs 3 s2 c2, at_left 3 s2 c2 7)))) =
      Inr (Inr [(7, 0), (8, 0)], 0, Inr [(3, 0), (7, 0)], Inr 0)"
  by code_simp

text \<open>
  Claim C9 fails on the code in its second half.  After \<open>a.insert(2, 20)\<close> and
  \<open>a.swap(c)\<close>, for an empty container \<open>e\<close>, both \<open>c == e\<close> and \<open>e == c\<close> return \<open>true\<close>:
  the sizes are both 0 and the loop ends at once at the end of \<open>e\<close>, although the walk
  over \<open>c\<close> yields the pair \<open>(2, 20)\<close> and the walk over \<open>e\<close> nothing.
\<close>

theorem equal_after_swap_ignores_pairs:
  "bind swapped_and_fresh (\<lambda>(s, c, e).
        Inr (bimap_size c, bimap_size e, traverse_pairs 3 s c, traverse_pairs 3 s e)) =
      Inr (0, 0, Inr [(2, 20)], Inr [])
   \<and> bind swapped_and_fresh (\<lambda>(s, c, e). bimap_equal 3 s c e) = Inr True
   \<and> bind swapped_and_fresh (\<lambda>(s, c, e). bimap_equal 3 s e c) = Inr True"
  by code_simp
end
